theory Spec2Isabelle
  imports Main "HOL-Library.Multiset" "HOL-Library.Sublist"
begin

section \<open>Strings\<close>

text \<open>
  Python strings are modelled as \<^typ>\<open>string\<close>: a \<^typ>\<open>char\<close> is a code point below 256,
  and the character classes below are what Python's string methods and regular expressions
  accept among these code points (code points from 256 on cannot be written here).

  Whitespace, for \<^verbatim>\<open>str.strip()\<close> and the class \<^verbatim>\<open>\s\<close>: tab to carriage return, the four
  separators 0x1C to 0x1F, the space, NEL (0x85) and the no-break space (0xA0).
\<close>

definition is_space :: "char \<Rightarrow> bool" where
  "is_space c = (c \<in> set [CHR 0x09, CHR 0x0A, CHR 0x0B, CHR 0x0C, CHR 0x0D,
                           CHR 0x1C, CHR 0x1D, CHR 0x1E, CHR 0x1F, CHR '' '',
                           CHR 0x85, CHR 0xA0])"

text \<open>The class \<^verbatim>\<open>\d\<close>, and the digits that \<^verbatim>\<open>int()\<close> reads: the decimal digits.\<close>

definition is_digit :: "char \<Rightarrow> bool" where
  "is_digit c = (c \<in> set ''0123456789'')"

text \<open>
  Case folding for the flag \<^verbatim>\<open>re.IGNORECASE\<close>: the patterns of the source spell their
  literal letters in ASCII, and among the code points below 256 only the two cases of an
  ASCII letter match it.
\<close>

definition to_lower :: "char \<Rightarrow> char" where
  "to_lower c = (case map_of (zip ''ABCDEFGHIJKLMNOPQRSTUVWXYZ'' ''abcdefghijklmnopqrstuvwxyz'') c of
                   Some d \<Rightarrow> d | None \<Rightarrow> c)"

definition lower :: "string \<Rightarrow> string" where
  "lower s = map to_lower s"

text \<open>\<^verbatim>\<open>s.strip()\<close>: leading and trailing whitespace removed.\<close>

definition strip :: "string \<Rightarrow> string" where
  "strip s = rev (dropWhile is_space (rev (dropWhile is_space s)))"

text \<open>
  \<^verbatim>\<open>s.isdigit()\<close>: non-empty and made of digit characters only. Beside the decimal digits
  these are the superscripts two, three and one (0xB2, 0xB3, 0xB9), which \<^verbatim>\<open>int()\<close> rejects.
\<close>

definition isdigit_char :: "char \<Rightarrow> bool" where
  "isdigit_char c = (is_digit c \<or> c \<in> set [CHR 0xB2, CHR 0xB3, CHR 0xB9])"

definition isdigit :: "string \<Rightarrow> bool" where
  "isdigit s = (s \<noteq> [] \<and> list_all isdigit_char s)"

text \<open>
  The exceptions that the modelled functions raise; \<open>LoadError\<close> stands for whatever
  \<^verbatim>\<open>load_workbook\<close> raises on a file that it cannot read.
\<close>

datatype error = ValueError | IndexError | LoadError

text \<open>\<^verbatim>\<open>s.split(c)\<close> for a one-character separator; the result is never empty.\<close>

fun split_on :: "char \<Rightarrow> string \<Rightarrow> string list" where
  "split_on c [] = [[]]"
| "split_on c (x # xs) =
     (if x = c then [] # split_on c xs
      else (case split_on c xs of [] \<Rightarrow> [[x]] | y # ys \<Rightarrow> (x # y) # ys))"

text \<open>\<^verbatim>\<open>sep.join(parts)\<close>.\<close>

fun join :: "string \<Rightarrow> string list \<Rightarrow> string" where
  "join sep [] = []"
| "join sep [p] = p"
| "join sep (p # q # ps) = p @ sep @ join sep (q # ps)"

section \<open>Grouping of folders\<close>

text \<open>\<^verbatim>\<open>[p.strip() for p in name.split(",")]\<close>\<close>

definition parse_name_by_commas :: "string \<Rightarrow> string list" where
  "parse_name_by_commas name = map strip (split_on (CHR '','') name)"

text \<open>
  The anchor \<^verbatim>\<open>$\<close> of Python's \<^verbatim>\<open>re\<close> holds at the end of the string and also just
  before a newline that ends the string.
\<close>

definition at_end :: "string \<Rightarrow> bool" where
  "at_end r = (r = [] \<or> r = [CHR 0x0A])"

text \<open>
  \<^verbatim>\<open>_PACK_PATTERN = re.compile(r"^\d+\s*pack$", re.IGNORECASE)\<close>, used with
  \<^verbatim>\<open>.match\<close>. The classes of neighbouring repetitions are disjoint, so the greedy
  repetitions are the longest prefixes.
\<close>

definition PACK_PATTERN_match :: "string \<Rightarrow> bool" where
  "PACK_PATTERN_match s =
     (let ds = takeWhile is_digit s;
          r1 = dropWhile is_digit s;
          r2 = dropWhile is_space r1
      in ds \<noteq> [] \<and> lower (take 4 r2) = ''pack'' \<and> at_end (drop 4 r2))"

text \<open>
  \<^verbatim>\<open>_PACK_SUFFIX_PATTERN = re.compile(r"\s+\d+\s*pack\s*$", re.IGNORECASE)\<close>.
  \<open>PACK_SUFFIX_PATTERN_at\<close> says that the pattern matches at the start of \<open>s\<close>; the
  final \<^verbatim>\<open>\s*\<close> takes a closing newline too, so such a match always runs to the end
  of the string.
\<close>

definition PACK_SUFFIX_PATTERN_at :: "string \<Rightarrow> bool" where
  "PACK_SUFFIX_PATTERN_at s =
     (let w = takeWhile is_space s;
          r1 = dropWhile is_space s;
          ds = takeWhile is_digit r1;
          r2 = dropWhile is_digit r1;
          r3 = dropWhile is_space r2
      in w \<noteq> [] \<and> ds \<noteq> [] \<and> lower (take 4 r3) = ''pack'' \<and> list_all is_space (drop 4 r3))"

text \<open>
  \<^verbatim>\<open>_PACK_SUFFIX_PATTERN.sub("", s)\<close>: the search tries the start positions from left
  to right and removes the first match, which is a suffix of \<open>s\<close>.
\<close>

fun PACK_SUFFIX_PATTERN_sub :: "string \<Rightarrow> string" where
  "PACK_SUFFIX_PATTERN_sub [] = []"
| "PACK_SUFFIX_PATTERN_sub (c # cs) =
     (if PACK_SUFFIX_PATTERN_at (c # cs) then [] else c # PACK_SUFFIX_PATTERN_sub cs)"

definition strip_pack_suffix :: "string \<Rightarrow> string" where
  "strip_pack_suffix s = (if s = [] then s else strip (PACK_SUFFIX_PATTERN_sub s))"

definition get_group_key :: "string \<Rightarrow> string" where
  "get_group_key folder_name =
     (let parts = parse_name_by_commas folder_name in
      if length parts < 3 then ''''
      else
        let app = (if length parts > 3 then parts ! 3 else folder_name);
            key_parts = [app];
            key_parts = (if length parts > 4 then key_parts @ [strip (parts ! 4)] else key_parts);
            key_parts =
              (if length parts > 5 then
                 (let product = strip_pack_suffix (strip (parts ! 5)) in
                  if product \<noteq> [] \<and> \<not> PACK_PATTERN_match product
                  then key_parts @ [product] else key_parts)
               else key_parts)
        in join '' | '' key_parts)"

section \<open>Facts about stripping and the pack patterns\<close>

lemma split_on_not_Nil: "split_on c s \<noteq> []"
  by (induction s) (auto split: list.splits)

lemma length_split_on: "length (split_on c s) = Suc (length (filter (\<lambda>x. x = c) s))"
  by (induction s) (auto split: list.splits simp: split_on_not_Nil)

lemma length_parse_name_by_commas:
  "length (parse_name_by_commas name) = Suc (length (filter (\<lambda>x. x = CHR '','') name))"
  by (simp add: parse_name_by_commas_def length_split_on)

text \<open>Auxiliary: trailing whitespace removed (the right half of \<open>strip\<close>).\<close>

definition rstrip :: "string \<Rightarrow> string" where
  "rstrip s = rev (dropWhile is_space (rev s))"

lemma strip_rstrip: "strip s = rstrip (dropWhile is_space s)"
  by (simp add: strip_def rstrip_def)

lemma is_digit_not_space: "is_digit c \<Longrightarrow> \<not> is_space c"
  unfolding is_digit_def by (simp, elim disjE) (simp_all add: is_space_def)

lemma to_lower_space: "is_space c \<Longrightarrow> to_lower c = c"
  unfolding is_space_def by (simp, elim disjE) (simp_all add: to_lower_def)

lemma to_lower_digit: "is_digit c \<Longrightarrow> to_lower c = c"
  unfolding is_digit_def by (simp, elim disjE) (simp_all add: to_lower_def)

lemma lower_pack_length: "lower p = ''pack'' \<Longrightarrow> length p = 4"
proof -
  assume "lower p = ''pack''"
  then have "length (lower p) = 4" by simp
  then show ?thesis by (simp add: lower_def)
qed

lemma lower_pack_chars:
  assumes "lower p = ''pack''" and "c \<in> set p"
  shows "\<not> is_space c \<and> \<not> is_digit c \<and> c \<noteq> CHR '',''"
proof -
  from assms(2) have "to_lower c \<in> set (lower p)" by (simp add: lower_def)
  then have "to_lower c \<in> set ''pack''" by (simp only: assms(1))
  then have mem: "to_lower c \<in> {CHR ''p'', CHR ''a'', CHR ''c'', CHR ''k''}" by simp
  have "\<not> is_space c"
  proof
    assume "is_space c"
    with to_lower_space mem have "is_space c \<and> c \<in> {CHR ''p'', CHR ''a'', CHR ''c'', CHR ''k''}" by simp
    then show False by (auto simp: is_space_def)
  qed
  moreover have "\<not> is_digit c"
  proof
    assume "is_digit c"
    with to_lower_digit mem have "is_digit c \<and> c \<in> {CHR ''p'', CHR ''a'', CHR ''c'', CHR ''k''}" by simp
    then show False by (auto simp: is_digit_def)
  qed
  moreover have "c \<noteq> CHR '',''"
  proof
    assume "c = CHR '',''"
    then have "to_lower c = CHR '',''" by (simp add: to_lower_def)
    with mem show False by simp
  qed
  ultimately show ?thesis by blast
qed

lemma takeWhile_exact:
  "\<forall>x\<in>set a. P x \<Longrightarrow> b = [] \<or> \<not> P (hd b) \<Longrightarrow> takeWhile P (a @ b) = a"
  by (induction a) (cases b; simp)+

lemma dropWhile_exact:
  "\<forall>x\<in>set a. P x \<Longrightarrow> b = [] \<or> \<not> P (hd b) \<Longrightarrow> dropWhile P (a @ b) = b"
  by (induction a) (cases b; simp)+

lemma tail_bad:
  assumes "c \<in> set r" "is_digit c"
  shows "\<not> (lower (take 4 (dropWhile is_space r)) = ''pack'' \<and>
            list_all is_space (drop 4 (dropWhile is_space r)))"
proof
  let ?r = "dropWhile is_space r"
  assume a: "lower (take 4 ?r) = ''pack'' \<and> list_all is_space (drop 4 ?r)"
  have "c \<in> set (takeWhile is_space r) \<union> set ?r"
    using assms(1) by (metis takeWhile_dropWhile_id set_append)
  moreover have "c \<notin> set (takeWhile is_space r)"
    using assms(2) is_digit_not_space by (auto dest: set_takeWhileD)
  ultimately have "c \<in> set ?r" by simp
  then have "c \<in> set (take 4 ?r) \<union> set (drop 4 ?r)"
    by (metis append_take_drop_id set_append)
  then show False
  proof
    assume "c \<in> set (take 4 ?r)"
    moreover from a have "lower (take 4 ?r) = ''pack''" by simp
    ultimately have "\<not> is_digit c" using lower_pack_chars by blast
    with assms(2) show False by simp
  next
    assume "c \<in> set (drop 4 ?r)"
    moreover from a have "list_all is_space (drop 4 ?r)" by simp
    ultimately have "is_space c" unfolding list_all_iff by blast
    with assms(2) show False using is_digit_not_space by blast
  qed
qed

lemma PACK_SUFFIX_PATTERN_at_iff:
  assumes w: "w \<noteq> []" "\<forall>c\<in>set w. is_space c"
    and d: "d \<noteq> []" "\<forall>c\<in>set d. is_digit c"
    and w': "\<forall>c\<in>set w'. is_space c"
    and p: "lower p = ''pack''"
    and w'': "\<forall>c\<in>set w''. is_space c"
  shows "PACK_SUFFIX_PATTERN_at (u @ w @ d @ w' @ p @ w'') \<longleftrightarrow> (\<forall>c\<in>set u. is_space c)"
proof
  assume u: "\<forall>c\<in>set u. is_space c"
  have pne: "p \<noteq> []" using lower_pack_length[OF p] by auto
  have hd_d: "\<not> is_space (hd (d @ w' @ p @ w''))"
    using d is_digit_not_space by (cases d) auto
  have hd_p: "\<not> is_space (hd (p @ w''))" "\<not> is_digit (hd (p @ w''))"
    using pne lower_pack_chars[OF p] by (cases p; auto)+
  have hd_w: "w' @ p @ w'' = [] \<or> \<not> is_digit (hd (w' @ p @ w''))"
    using w' hd_p is_digit_not_space pne by (cases w') auto
  have 1: "takeWhile is_space ((u @ w) @ d @ w' @ p @ w'') = u @ w"
    using u w hd_d by (intro takeWhile_exact) auto
  have 2: "dropWhile is_space ((u @ w) @ d @ w' @ p @ w'') = d @ w' @ p @ w''"
    using u w hd_d by (intro dropWhile_exact) auto
  have 3: "takeWhile is_digit (d @ w' @ p @ w'') = d"
    using d hd_w by (intro takeWhile_exact) auto
  have 4: "dropWhile is_digit (d @ w' @ p @ w'') = w' @ p @ w''"
    using d hd_w by (intro dropWhile_exact) auto
  have 5: "dropWhile is_space (w' @ p @ w'') = p @ w''"
    using w' hd_p by (intro dropWhile_exact) auto
  show "PACK_SUFFIX_PATTERN_at (u @ w @ d @ w' @ p @ w'')"
    using 1 2 3 4 5 w d p w'' lower_pack_length[OF p]
    by (simp add: PACK_SUFFIX_PATTERN_at_def Let_def list_all_iff)
next
  assume at: "PACK_SUFFIX_PATTERN_at (u @ w @ d @ w' @ p @ w'')"
  show "\<forall>c\<in>set u. is_space c"
  proof (rule ccontr)
    assume "\<not> (\<forall>c\<in>set u. is_space c)"
    then have nu: "\<exists>c\<in>set u. \<not> is_space c" by blast
    let ?T = "d @ w' @ p @ w''"
    from nu obtain c where c: "c \<in> set u" "\<not> is_space c" by blast
    have r1: "dropWhile is_space (u @ w @ ?T) = dropWhile is_space u @ w @ ?T"
      using c by (rule dropWhile_append1)
    have hw: "hd w \<in> set (dropWhile is_space u @ w)" "\<not> is_digit (hd w)"
      using w is_digit_not_space by (cases w; auto)+
    have r2: "dropWhile is_digit ((dropWhile is_space u @ w) @ ?T)
        = dropWhile is_digit (dropWhile is_space u @ w) @ ?T"
      using hw by (rule dropWhile_append1)
    have "hd d \<in> set (dropWhile is_digit (dropWhile is_space (u @ w @ ?T)))"
      using r1 r2 d by (cases d) auto
    moreover have "is_digit (hd d)" using d by (cases d) auto
    ultimately have "\<not> (lower (take 4 (dropWhile is_space (dropWhile is_digit (dropWhile is_space (u @ w @ ?T))))) = ''pack'' \<and>
            list_all is_space (drop 4 (dropWhile is_space (dropWhile is_digit (dropWhile is_space (u @ w @ ?T))))))"
      by (rule tail_bad)
    with at show False
      unfolding PACK_SUFFIX_PATTERN_at_def Let_def by blast
  qed
qed


lemma rstrip_all_space: "\<forall>c\<in>set x. is_space c \<Longrightarrow> rstrip x = []"
  by (simp add: rstrip_def)

lemma rstrip_append_space: "\<forall>c\<in>set b. is_space c \<Longrightarrow> rstrip (a @ b) = rstrip a"
proof -
  assume "\<forall>c\<in>set b. is_space c"
  then have "\<And>c. c \<in> set (rev b) \<Longrightarrow> is_space c" by simp
  then have "dropWhile is_space (rev b @ rev a) = dropWhile is_space (rev a)"
    by (rule dropWhile_append2)
  then show ?thesis by (simp add: rstrip_def)
qed

lemma rstrip_append_nonspace:
  assumes "c \<in> set b" "\<not> is_space c"
  shows "rstrip (a @ b) = a @ rstrip b"
proof -
  have "c \<in> set (rev b)" using assms(1) by simp
  then have "dropWhile is_space (rev b @ rev a) = dropWhile is_space (rev b) @ rev a"
    using assms(2) by (rule dropWhile_append1)
  then show ?thesis by (simp add: rstrip_def)
qed

lemma rstrip_last_nonspace: "s \<noteq> [] \<Longrightarrow> \<not> is_space (last s) \<Longrightarrow> rstrip s = s"
  by (cases s rule: rev_cases) (simp_all add: rstrip_def)

lemma rstrip_Cons:
  assumes "\<not> (\<forall>c\<in>set (a # x). is_space c)"
  shows "rstrip (a # x) = a # rstrip x"
proof (cases "\<forall>c\<in>set x. is_space c")
  case True
  with assms have "\<not> is_space a" by simp
  then have "rstrip ([a] @ x) = rstrip [a]" using True by (simp only: rstrip_append_space)
  then show ?thesis using True \<open>\<not> is_space a\<close> by (simp add: rstrip_def)
next
  case False
  then obtain c where "c \<in> set x" "\<not> is_space c" by blast
  then have "rstrip ([a] @ x) = [a] @ rstrip x" by (rule rstrip_append_nonspace)
  then show ?thesis by simp
qed

lemma PACK_SUFFIX_PATTERN_sub_qualifier:
  assumes w: "w \<noteq> []" "\<forall>c\<in>set w. is_space c"
    and d: "d \<noteq> []" "\<forall>c\<in>set d. is_digit c"
    and w': "\<forall>c\<in>set w'. is_space c"
    and p: "lower p = ''pack''"
    and w'': "\<forall>c\<in>set w''. is_space c"
  shows "PACK_SUFFIX_PATTERN_sub (x @ w @ d @ w' @ p @ w'') = rstrip x"
proof (induction x)
  case Nil
  have "PACK_SUFFIX_PATTERN_at ([] @ w @ d @ w' @ p @ w'')"
    using PACK_SUFFIX_PATTERN_at_iff[OF assms, of "[]"] by simp
  then show ?case using w(1) by (cases w) (simp_all add: rstrip_def)
next
  case (Cons a x)
  show ?case
  proof (cases "\<forall>c\<in>set (a # x). is_space c")
    case True
    then have "PACK_SUFFIX_PATTERN_at ((a # x) @ w @ d @ w' @ p @ w'')"
      using PACK_SUFFIX_PATTERN_at_iff[OF assms, of "a # x"] by blast
    then show ?thesis using True rstrip_all_space[of "a # x"] by simp
  next
    case False
    then have "\<not> PACK_SUFFIX_PATTERN_at ((a # x) @ w @ d @ w' @ p @ w'')"
      using PACK_SUFFIX_PATTERN_at_iff[OF assms, of "a # x"] by blast
    then show ?thesis using Cons.IH rstrip_Cons[OF False] by simp
  qed
qed

lemma PACK_SUFFIX_PATTERN_at_starts_space:
  "PACK_SUFFIX_PATTERN_at s \<Longrightarrow> s \<noteq> [] \<and> is_space (hd s)"
  by (cases s) (auto simp: PACK_SUFFIX_PATTERN_at_def Let_def split: if_splits)

lemma PACK_SUFFIX_PATTERN_sub_nospace:
  "\<forall>c\<in>set s. \<not> is_space c \<Longrightarrow> PACK_SUFFIX_PATTERN_sub s = s"
proof (induction s)
  case Nil
  then show ?case by simp
next
  case (Cons a s)
  have "\<not> PACK_SUFFIX_PATTERN_at (a # s)"
    using PACK_SUFFIX_PATTERN_at_starts_space[of "a # s"] Cons.prems by auto
  then show ?case using Cons by simp
qed

lemma PACK_SUFFIX_PATTERN_sub_nospace_prefix:
  "\<forall>c\<in>set a. \<not> is_space c \<Longrightarrow>
   PACK_SUFFIX_PATTERN_sub (a @ r) = a @ PACK_SUFFIX_PATTERN_sub r"
proof (induction a)
  case Nil
  then show ?case by simp
next
  case (Cons c a)
  have "\<not> PACK_SUFFIX_PATTERN_at (c # a @ r)"
    using PACK_SUFFIX_PATTERN_at_starts_space[of "c # a @ r"] Cons.prems by auto
  then show ?case using Cons by simp
qed

lemma PACK_SUFFIX_PATTERN_sub_spaces_pack:
  assumes p: "lower p = ''pack''"
  shows "\<forall>c\<in>set v. is_space c \<Longrightarrow> PACK_SUFFIX_PATTERN_sub (v @ p) = v @ p"
proof (induction v)
  case Nil
  have "\<forall>c\<in>set p. \<not> is_space c" using lower_pack_chars[OF p] by blast
  then show ?case using PACK_SUFFIX_PATTERN_sub_nospace by simp
next
  case (Cons a v)
  have pne: "p \<noteq> []" using lower_pack_length[OF p] by auto
  then have hd: "\<not> is_space (hd p)" "\<not> is_digit (hd p)"
    using lower_pack_chars[OF p, of "hd p"] by simp_all
  have "dropWhile is_space ((a # v) @ p) = p"
    using Cons.prems hd pne by (intro dropWhile_exact) auto
  moreover have "takeWhile is_digit p = []"
    using hd pne by (cases p) auto
  ultimately have "\<not> PACK_SUFFIX_PATTERN_at ((a # v) @ p)"
    by (simp add: PACK_SUFFIX_PATTERN_at_def Let_def)
  then show ?case using Cons by simp
qed

lemma PACK_SUFFIX_PATTERN_sub_bare:
  assumes d: "\<forall>c\<in>set d. is_digit c"
    and w': "\<forall>c\<in>set w'. is_space c"
    and p: "lower p = ''pack''"
  shows "PACK_SUFFIX_PATTERN_sub (d @ w' @ p) = d @ w' @ p"
proof -
  have "\<forall>c\<in>set d. \<not> is_space c" using d is_digit_not_space by blast
  then have "PACK_SUFFIX_PATTERN_sub (d @ w' @ p) = d @ PACK_SUFFIX_PATTERN_sub (w' @ p)"
    by (rule PACK_SUFFIX_PATTERN_sub_nospace_prefix)
  then show ?thesis using PACK_SUFFIX_PATTERN_sub_spaces_pack[OF p w'] by simp
qed

lemma PACK_PATTERN_match_bare:
  assumes d: "d \<noteq> []" "\<forall>c\<in>set d. is_digit c"
    and w': "\<forall>c\<in>set w'. is_space c"
    and p: "lower p = ''pack''"
  shows "PACK_PATTERN_match (d @ w' @ p)"
proof -
  have pne: "p \<noteq> []" using lower_pack_length[OF p] by auto
  then have hd: "\<not> is_space (hd p)" "\<not> is_digit (hd p)"
    using lower_pack_chars[OF p, of "hd p"] by simp_all
  have hd_w: "w' @ p = [] \<or> \<not> is_digit (hd (w' @ p))"
    using w' hd is_digit_not_space pne by (cases w') auto
  have 1: "takeWhile is_digit (d @ w' @ p) = d"
    using d hd_w by (intro takeWhile_exact) auto
  have 2: "dropWhile is_digit (d @ w' @ p) = w' @ p"
    using d hd_w by (intro dropWhile_exact) auto
  have 3: "dropWhile is_space (w' @ p) = p"
    using w' hd pne by (intro dropWhile_exact) auto
  show ?thesis
    using 1 2 3 d p lower_pack_length[OF p]
    by (simp add: PACK_PATTERN_match_def Let_def at_end_def)
qed

lemma rstrip_decomp: "u = rstrip u @ rev (takeWhile is_space (rev u))"
proof -
  have "rev (takeWhile is_space (rev u) @ dropWhile is_space (rev u)) = rev (rev u)"
    by (simp only: takeWhile_dropWhile_id)
  then have "rev (dropWhile is_space (rev u)) @ rev (takeWhile is_space (rev u)) = u"
    by (simp only: rev_append rev_rev_ident)
  then show ?thesis by (simp only: rstrip_def)
qed

lemma rstrip_idem: "rstrip (rstrip u) = rstrip u"
  by (simp add: rstrip_def dropWhile_idem)

lemma rstrip_last: "rstrip u \<noteq> [] \<Longrightarrow> \<not> is_space (last (rstrip u))"
proof -
  assume "rstrip u \<noteq> []"
  then have ne: "dropWhile is_space (rev u) \<noteq> []" by (simp add: rstrip_def)
  then have "\<not> is_space (hd (dropWhile is_space (rev u)))" by (rule hd_dropWhile)
  then show ?thesis using ne by (simp add: rstrip_def last_rev)
qed

lemma lstrip_rstrip:
  assumes "u = [] \<or> \<not> is_space (hd u)"
  shows "dropWhile is_space (rstrip u) = rstrip u"
proof (cases "rstrip u")
  case Nil
  then show ?thesis by simp
next
  case (Cons a v)
  then have "u = (a # v) @ rev (takeWhile is_space (rev u))" using rstrip_decomp[of u] by simp
  then have "hd u = a" "u \<noteq> []" by (metis append_Cons list.sel(1), metis append_Cons list.distinct(1))
  with assms have "\<not> is_space a" by simp
  then show ?thesis using Cons by simp
qed

lemma strip_idem: "strip (strip s) = strip s"
proof -
  let ?u = "dropWhile is_space s"
  have "?u = [] \<or> \<not> is_space (hd ?u)" using hd_dropWhile[of is_space s] by blast
  then have "dropWhile is_space (rstrip ?u) = rstrip ?u" by (rule lstrip_rstrip)
  then show ?thesis by (simp add: strip_rstrip rstrip_idem)
qed

lemma strip_ends:
  "strip s = [] \<or> (\<not> is_space (hd (strip s)) \<and> \<not> is_space (last (strip s)))"
proof (cases "strip s = []")
  case True
  then show ?thesis by simp
next
  case False
  let ?u = "dropWhile is_space s"
  have u: "?u = [] \<or> \<not> is_space (hd ?u)" using hd_dropWhile[of is_space s] by blast
  have "dropWhile is_space (strip s) = strip s"
    using lstrip_rstrip[OF u] by (simp add: strip_rstrip)
  then have "\<not> is_space (hd (strip s))" using False
    by (metis hd_dropWhile)
  moreover have "\<not> is_space (last (strip s))"
    using False rstrip_last[of ?u] by (simp add: strip_rstrip)
  ultimately show ?thesis by simp
qed

lemma strip_all_space: "\<forall>c\<in>set s. is_space c \<Longrightarrow> strip s = []"
proof -
  assume "\<forall>c\<in>set s. is_space c"
  then have "dropWhile is_space s = []" by (induction s) simp_all
  then have "strip s = rev (dropWhile is_space (rev []))" by (simp only: strip_def)
  then show ?thesis by simp
qed

lemma split_on_nosep: "c \<notin> set p \<Longrightarrow> split_on c p = [p]"
  by (induction p) auto

lemma split_on_append_sep: "c \<notin> set p \<Longrightarrow> split_on c (p @ c # r) = p # split_on c r"
  by (induction p) auto

lemma split_on_join:
  "segs \<noteq> [] \<Longrightarrow> \<forall>s\<in>set segs. c \<notin> set s \<Longrightarrow> split_on c (join [c] segs) = segs"
proof (induction "[c]" segs rule: join.induct)
  case 1
  then show ?case by simp
next
  case (2 p)
  then show ?case by (simp add: split_on_nosep)
next
  case (3 p q ps)
  then show ?case by (simp add: split_on_append_sep)
qed

lemma parse_name_by_commas_join:
  "segs \<noteq> [] \<Longrightarrow> \<forall>s\<in>set segs. CHR '','' \<notin> set s \<Longrightarrow>
   parse_name_by_commas (join '','' segs) = map strip segs"
  by (simp add: parse_name_by_commas_def split_on_join)

lemma PACK_SUFFIX_PATTERN_at_decomp:
  assumes "PACK_SUFFIX_PATTERN_at q"
  shows "\<exists>w d w' p w''. q = w @ d @ w' @ p @ w'' \<and> w \<noteq> [] \<and> (\<forall>c\<in>set w. is_space c) \<and>
           d \<noteq> [] \<and> (\<forall>c\<in>set d. is_digit c) \<and> (\<forall>c\<in>set w'. is_space c) \<and>
           lower p = ''pack'' \<and> (\<forall>c\<in>set w''. is_space c)"
proof -
  let ?w = "takeWhile is_space q"
  let ?r1 = "dropWhile is_space q"
  let ?d = "takeWhile is_digit ?r1"
  let ?r2 = "dropWhile is_digit ?r1"
  let ?w' = "takeWhile is_space ?r2"
  let ?r3 = "dropWhile is_space ?r2"
  have "q = ?w @ ?r1" by simp
  also have "?r1 = ?d @ ?r2" by simp
  also have "?r2 = ?w' @ ?r3" by simp
  also have "?r3 = take 4 ?r3 @ drop 4 ?r3" by simp
  finally have "q = ?w @ ?d @ ?w' @ take 4 ?r3 @ drop 4 ?r3" .
  moreover have "?w \<noteq> []" "?d \<noteq> []" "lower (take 4 ?r3) = ''pack''"
    "\<forall>c\<in>set (drop 4 ?r3). is_space c"
    using assms unfolding PACK_SUFFIX_PATTERN_at_def Let_def list_all_iff by blast+
  moreover have "\<forall>c\<in>set ?w. is_space c" "\<forall>c\<in>set ?d. is_digit c" "\<forall>c\<in>set ?w'. is_space c"
    by (blast dest: set_takeWhileD)+
  ultimately show ?thesis by blast
qed

lemma PACK_PATTERN_match_decomp:
  assumes "PACK_PATTERN_match s"
  shows "\<exists>d w' p r. s = d @ w' @ p @ r \<and> d \<noteq> [] \<and> (\<forall>c\<in>set d. is_digit c) \<and>
           (\<forall>c\<in>set w'. is_space c) \<and> lower p = ''pack'' \<and> at_end r"
proof -
  let ?d = "takeWhile is_digit s"
  let ?r1 = "dropWhile is_digit s"
  let ?w' = "takeWhile is_space ?r1"
  let ?r2 = "dropWhile is_space ?r1"
  have "s = ?d @ ?r1" by simp
  also have "?r1 = ?w' @ ?r2" by simp
  also have "?r2 = take 4 ?r2 @ drop 4 ?r2" by simp
  finally have "s = ?d @ ?w' @ take 4 ?r2 @ drop 4 ?r2" .
  moreover have "?d \<noteq> []" "lower (take 4 ?r2) = ''pack''" "at_end (drop 4 ?r2)"
    using assms unfolding PACK_PATTERN_match_def Let_def by blast+
  moreover have "\<forall>c\<in>set ?d. is_digit c" "\<forall>c\<in>set ?w'. is_space c"
    by (blast dest: set_takeWhileD)+
  ultimately show ?thesis by blast
qed

lemma is_space_newline: "is_space (CHR 0x0A)"
  by (simp add: is_space_def)

lemma strip_fixed: "s = [] \<or> (\<not> is_space (hd s) \<and> \<not> is_space (last s)) \<Longrightarrow> strip s = s"
proof (cases s)
  case Nil
  then show ?thesis by (simp add: strip_def)
next
  case (Cons a t)
  assume "s = [] \<or> (\<not> is_space (hd s) \<and> \<not> is_space (last s))"
  with Cons have a: "\<not> is_space a" and l: "\<not> is_space (last s)" by simp_all
  have "dropWhile is_space s = s" using Cons a by simp
  moreover have "rstrip s = s" using Cons l by (intro rstrip_last_nonspace) simp_all
  ultimately show ?thesis by (simp add: strip_rstrip)
qed

text \<open>A stripped string that is itself an \<open><int> pack\<close> token is left as it is.\<close>

lemma strip_pack_suffix_token:
  assumes "PACK_PATTERN_match (strip t)"
  shows "strip_pack_suffix (strip t) = strip t"
proof -
  from PACK_PATTERN_match_decomp[OF assms] obtain d w' p r where
    s: "strip t = d @ w' @ p @ r" and d: "d \<noteq> []" "\<forall>c\<in>set d. is_digit c"
    and w': "\<forall>c\<in>set w'. is_space c" and p: "lower p = ''pack''" and r: "at_end r"
    by blast
  have ne: "strip t \<noteq> []" using s d by simp
  have "r = []"
  proof (rule ccontr)
    assume "r \<noteq> []"
    with r have "r = [CHR 0x0A]" by (simp add: at_end_def)
    with s have "last (strip t) = CHR 0x0A" by simp
    with strip_ends[of t] ne is_space_newline show False by simp
  qed
  with s have s': "strip t = d @ w' @ p" by simp
  have "PACK_SUFFIX_PATTERN_sub (strip t) = strip t"
    unfolding s' using d(2) w' p by (rule PACK_SUFFIX_PATTERN_sub_bare)
  then show ?thesis using ne by (simp add: strip_pack_suffix_def strip_idem)
qed

text \<open>The product part of a sixth segment \<open>x @ q\<close>, \<open>q\<close> a pack qualifier, depends on \<open>x\<close> only.\<close>

lemma product_of_qualified:
  assumes q: "PACK_SUFFIX_PATTERN_at q"
  shows "strip_pack_suffix (strip (x @ q)) = strip x \<or>
         (strip x = [] \<and> PACK_PATTERN_match (strip_pack_suffix (strip (x @ q))))"
proof -
  from PACK_SUFFIX_PATTERN_at_decomp[OF q] obtain w d w' p w'' where
    qq: "q = w @ d @ w' @ p @ w''" and w: "w \<noteq> []" "\<forall>c\<in>set w. is_space c"
    and d: "d \<noteq> []" "\<forall>c\<in>set d. is_digit c" and w': "\<forall>c\<in>set w'. is_space c"
    and p: "lower p = ''pack''" and w'': "\<forall>c\<in>set w''. is_space c"
    by blast
  have pne: "p \<noteq> []" using lower_pack_length[OF p] by auto
  then have lastp: "last p \<in> set p" by simp
  then have lp: "\<not> is_space (last p)" using lower_pack_chars[OF p] by blast
  have hd_d: "\<not> is_space (hd (d @ w' @ p @ w''))"
    using d is_digit_not_space by (cases d) auto
  show ?thesis
  proof (cases "\<forall>c\<in>set x. is_space c")
    case True
    have "dropWhile is_space ((x @ w) @ d @ w' @ p @ w'') = d @ w' @ p @ w''"
      using True w hd_d by (intro dropWhile_exact) auto
    then have "strip (x @ q) = rstrip (((d @ w') @ p) @ w'')"
      by (simp add: strip_rstrip qq)
    also have "\<dots> = rstrip ((d @ w') @ p)" using w'' by (rule rstrip_append_space)
    also have "\<dots> = (d @ w') @ rstrip p" using lastp lp by (rule rstrip_append_nonspace)
    also have "rstrip p = p" using pne lp by (rule rstrip_last_nonspace)
    finally have s: "strip (x @ q) = d @ w' @ p" by simp
    have m: "PACK_PATTERN_match (d @ w' @ p)" using d w' p by (rule PACK_PATTERN_match_bare)
    then have "PACK_PATTERN_match (strip (x @ q))" by (simp only: s)
    then have "strip_pack_suffix (strip (x @ q)) = strip (x @ q)" by (rule strip_pack_suffix_token)
    with m s strip_all_space[OF True] show ?thesis by simp
  next
    case False
    then obtain c where c: "c \<in> set x" "\<not> is_space c" by blast
    let ?lx = "dropWhile is_space x"
    have "dropWhile is_space (x @ q) = ?lx @ q" using c by (rule dropWhile_append1)
    then have "strip (x @ q) = rstrip ((((?lx @ w) @ d @ w') @ p) @ w'')"
      by (simp add: strip_rstrip qq)
    also have "\<dots> = rstrip (((?lx @ w) @ d @ w') @ p)" using w'' by (rule rstrip_append_space)
    also have "\<dots> = ((?lx @ w) @ d @ w') @ rstrip p" using lastp lp by (rule rstrip_append_nonspace)
    also have "rstrip p = p" using pne lp by (rule rstrip_last_nonspace)
    finally have s: "strip (x @ q) = ?lx @ w @ d @ w' @ p @ []" by simp
    have "PACK_SUFFIX_PATTERN_sub (?lx @ w @ d @ w' @ p @ []) = rstrip ?lx"
      using w d w' p by (intro PACK_SUFFIX_PATTERN_sub_qualifier) simp_all
    then have "PACK_SUFFIX_PATTERN_sub (strip (x @ q)) = rstrip ?lx"
      by (simp only: s)
    then have "PACK_SUFFIX_PATTERN_sub (strip (x @ q)) = strip x"
      by (simp only: strip_rstrip[of x])
    moreover have "strip (x @ q) \<noteq> []" using s w by simp
    ultimately show ?thesis by (simp add: strip_pack_suffix_def strip_idem)
  qed
qed

lemma PACK_SUFFIX_PATTERN_at_no_comma:
  assumes "PACK_SUFFIX_PATTERN_at q"
  shows "CHR '','' \<notin> set q"
proof -
  from PACK_SUFFIX_PATTERN_at_decomp[OF assms] obtain w d w' p w'' where
    qq: "q = w @ d @ w' @ p @ w''" and w: "\<forall>c\<in>set w. is_space c"
    and d: "\<forall>c\<in>set d. is_digit c" and w': "\<forall>c\<in>set w'. is_space c"
    and p: "lower p = ''pack''" and w'': "\<forall>c\<in>set w''. is_space c"
    by blast
  have "\<not> is_space (CHR '','')" "\<not> is_digit (CHR '','')"
    by (simp_all add: is_space_def is_digit_def)
  then have "CHR '','' \<notin> set w" "CHR '','' \<notin> set d" "CHR '','' \<notin> set w'" "CHR '','' \<notin> set w''"
    using w d w' w'' by blast+
  moreover have "CHR '','' \<notin> set p" using lower_pack_chars[OF p] by blast
  ultimately show ?thesis by (simp add: qq)
qed

lemma nth_parse_name_by_commas_strip:
  "i < length (parse_name_by_commas name) \<Longrightarrow>
   strip (parse_name_by_commas name ! i) = parse_name_by_commas name ! i"
  by (simp add: parse_name_by_commas_def strip_idem)

lemma get_group_key_parts:
  assumes "4 < length (parse_name_by_commas name)"
  shows "get_group_key name =
    (let parts = parse_name_by_commas name in
     join '' | '' (parts ! 3 # parts ! 4 #
       (if 5 < length parts \<and> strip_pack_suffix (parts ! 5) \<noteq> [] \<and>
           \<not> PACK_PATTERN_match (strip_pack_suffix (parts ! 5))
        then [strip_pack_suffix (parts ! 5)] else [])))"
proof -
  let ?parts = "parse_name_by_commas name"
  have 4: "strip (?parts ! 4) = ?parts ! 4"
    using assms by (intro nth_parse_name_by_commas_strip) simp
  have 5: "5 < length ?parts \<Longrightarrow> strip (?parts ! 5) = ?parts ! 5"
    by (rule nth_parse_name_by_commas_strip)
  show ?thesis
  proof (cases "5 < length ?parts")
    case True
    with assms 4 5 show ?thesis by (simp add: get_group_key_def Let_def)
  next
    case False
    with assms 4 show ?thesis by (simp add: get_group_key_def Let_def)
  qed
qed

lemma join_inj_second: "join sep (a # b # t) = join sep (a # b' # t) \<Longrightarrow> b = b'"
  by (cases t) simp_all

lemma get_group_key_qualified:
  assumes pre: "length pre = 5" "\<forall>s\<in>set pre. CHR '','' \<notin> set s"
    and x: "CHR '','' \<notin> set x"
    and post: "\<forall>s\<in>set post. CHR '','' \<notin> set s"
    and q: "PACK_SUFFIX_PATTERN_at q"
  shows "get_group_key (join '','' (pre @ (x @ q) # post)) =
         join '' | '' (strip (pre ! 3) # strip (pre ! 4) #
           (if strip x \<noteq> [] \<and> \<not> PACK_PATTERN_match (strip x) then [strip x] else []))"
proof -
  let ?segs = "pre @ (x @ q) # post"
  let ?name = "join '','' ?segs"
  have "\<forall>s\<in>set ?segs. CHR '','' \<notin> set s"
    using pre(2) x post PACK_SUFFIX_PATTERN_at_no_comma[OF q] by auto
  then have parts: "parse_name_by_commas ?name = map strip ?segs"
    by (intro parse_name_by_commas_join) simp_all
  have len: "5 < length (parse_name_by_commas ?name)" using pre(1) by (simp add: parts)
  have p3: "parse_name_by_commas ?name ! 3 = strip (pre ! 3)"
    and p4: "parse_name_by_commas ?name ! 4 = strip (pre ! 4)"
    and p5: "parse_name_by_commas ?name ! 5 = strip (x @ q)"
    using pre(1) by (simp_all add: parts nth_append)
  have key: "get_group_key ?name =
     join '' | '' (strip (pre ! 3) # strip (pre ! 4) #
       (if strip_pack_suffix (strip (x @ q)) \<noteq> [] \<and>
           \<not> PACK_PATTERN_match (strip_pack_suffix (strip (x @ q)))
        then [strip_pack_suffix (strip (x @ q))] else []))"
    using get_group_key_parts[of ?name] len by (simp add: Let_def p3 p4 p5)
  from product_of_qualified[OF q, of x] show ?thesis
  proof
    assume "strip_pack_suffix (strip (x @ q)) = strip x"
    then show ?thesis by (simp only: key)
  next
    assume "strip x = [] \<and> PACK_PATTERN_match (strip_pack_suffix (strip (x @ q)))"
    then show ?thesis by (simp add: key)
  qed
qed

section \<open>The group key and the pack qualifier\<close>

lemma get_group_key_examples:
  "get_group_key ''A, B, C, App1, Type1, spr 16 pack'' = ''App1 | Type1 | spr''"
  "get_group_key ''A, B, C, App1, Type1, spr 9 pack'' = ''App1 | Type1 | spr''"
  "get_group_key ''A, B, C, App1, Type2, spr 16 pack'' = ''App1 | Type2 | spr''"
  "get_group_key (''A, B, C, App1, Type1, spr'' @ CHR 0xA0 # ''16 PACK'') = ''App1 | Type1 | spr''"
  "get_group_key ''A, B, C, App1, Type1, spr16 pack'' = ''App1 | Type1 | spr16 pack''"
  by code_simp+

text \<open>
  C5. Folder names that differ only in the pack qualifier (whitespace, an integer, \<open>pack\<close>)
  that ends their sixth segment have the same key (the whitespace may be a no-break space,
  and without it nothing is cut); names that differ in the fifth segment
  only have different keys; a name of fewer than three segments has the empty key; and the
  sixth segment, the qualifier taken off, is appended only when it is neither empty nor
  itself an \<open><int> pack\<close> token.
\<close>

theorem get_group_key_pack_qualifier:
  "get_group_key (''A, B, C, App1, Type1, spr'' @ CHR 0xA0 # ''16 PACK'') = ''App1 | Type1 | spr'' \<and>
   get_group_key ''A, B, C, App1, Type1, spr16 pack'' = ''App1 | Type1 | spr16 pack'' \<and>
   get_group_key ''A, B, C, App1, Type1, spr 16 pack''
     = get_group_key ''A, B, C, App1, Type1, spr 9 pack'' \<and>
   get_group_key ''A, B, C, App1, Type1, spr 16 pack''
     \<noteq> get_group_key ''A, B, C, App1, Type2, spr 16 pack'' \<and>
   (\<forall>name. length (parse_name_by_commas name) < 3 \<longrightarrow> get_group_key name = '''') \<and>
   (\<forall>pre x q1 q2 post.
      length pre = 5 \<and> (\<forall>s\<in>set (x # pre @ post). CHR '','' \<notin> set s) \<and>
      PACK_SUFFIX_PATTERN_at q1 \<and> PACK_SUFFIX_PATTERN_at q2 \<longrightarrow>
      get_group_key (join '','' (pre @ (x @ q1) # post))
        = get_group_key (join '','' (pre @ (x @ q2) # post))) \<and>
   (\<forall>n1 n2.
      4 < length (parse_name_by_commas n1) \<and>
      parse_name_by_commas n2 = (parse_name_by_commas n1)[4 := parse_name_by_commas n2 ! 4] \<and>
      parse_name_by_commas n2 ! 4 \<noteq> parse_name_by_commas n1 ! 4 \<longrightarrow>
      get_group_key n1 \<noteq> get_group_key n2) \<and>
   (\<forall>name. 5 < length (parse_name_by_commas name) \<longrightarrow>
      (let parts = parse_name_by_commas name; product = strip_pack_suffix (parts ! 5) in
       get_group_key name =
         (if product \<noteq> [] \<and> \<not> PACK_PATTERN_match product
          then parts ! 3 @ '' | '' @ parts ! 4 @ '' | '' @ product
          else parts ! 3 @ '' | '' @ parts ! 4))) \<and>
   (\<forall>name. 5 < length (parse_name_by_commas name) \<and>
      (parse_name_by_commas name ! 5 = [] \<or> PACK_PATTERN_match (parse_name_by_commas name ! 5)) \<longrightarrow>
      get_group_key name = parse_name_by_commas name ! 3 @ '' | '' @ parse_name_by_commas name ! 4)"
proof (intro conjI allI impI)
  show "get_group_key (''A, B, C, App1, Type1, spr'' @ CHR 0xA0 # ''16 PACK'') = ''App1 | Type1 | spr''"
    by (rule get_group_key_examples)
  show "get_group_key ''A, B, C, App1, Type1, spr16 pack'' = ''App1 | Type1 | spr16 pack''"
    by (rule get_group_key_examples)
  show "get_group_key ''A, B, C, App1, Type1, spr 16 pack''
     = get_group_key ''A, B, C, App1, Type1, spr 9 pack''"
    by (simp only: get_group_key_examples)
  show "get_group_key ''A, B, C, App1, Type1, spr 16 pack''
     \<noteq> get_group_key ''A, B, C, App1, Type2, spr 16 pack''"
    by (simp add: get_group_key_examples)
next
  fix name assume "length (parse_name_by_commas name) < 3"
  then show "get_group_key name = ''''" by (simp add: get_group_key_def)
next
  fix pre x q1 q2 post
  assume a: "length pre = 5 \<and> (\<forall>s\<in>set (x # pre @ post). CHR '','' \<notin> set s) \<and>
      PACK_SUFFIX_PATTERN_at q1 \<and> PACK_SUFFIX_PATTERN_at q2"
  then have pre: "length pre = 5" "\<forall>s\<in>set pre. CHR '','' \<notin> set s"
    and x: "CHR '','' \<notin> set x" and post: "\<forall>s\<in>set post. CHR '','' \<notin> set s"
    and q1: "PACK_SUFFIX_PATTERN_at q1" and q2: "PACK_SUFFIX_PATTERN_at q2"
    by simp_all
  show "get_group_key (join '','' (pre @ (x @ q1) # post))
        = get_group_key (join '','' (pre @ (x @ q2) # post))"
    by (simp only: get_group_key_qualified[OF pre x post q1] get_group_key_qualified[OF pre x post q2])
next
  fix n1 n2
  let ?p1 = "parse_name_by_commas n1" and ?p2 = "parse_name_by_commas n2"
  assume a: "4 < length ?p1 \<and> ?p2 = ?p1[4 := ?p2 ! 4] \<and> ?p2 ! 4 \<noteq> ?p1 ! 4"
  then have upd: "?p2 = ?p1[4 := ?p2 ! 4]" and len1: "4 < length ?p1" and ne: "?p2 ! 4 \<noteq> ?p1 ! 4"
    by blast+
  have len: "length ?p2 = length ?p1" by (subst upd) simp
  have 3: "?p2 ! 3 = ?p1 ! 3" by (subst upd) simp
  have 5: "?p2 ! 5 = ?p1 ! 5" by (subst upd) simp
  show "get_group_key n1 \<noteq> get_group_key n2"
  proof
    assume "get_group_key n1 = get_group_key n2"
    then have "?p1 ! 4 = ?p2 ! 4"
      using get_group_key_parts[of n1] get_group_key_parts[of n2] len1 len 3 5
      by (auto simp: Let_def dest: join_inj_second split: if_splits)
    with ne show False by simp
  qed
next
  fix name assume "5 < length (parse_name_by_commas name)"
  then show "let parts = parse_name_by_commas name; product = strip_pack_suffix (parts ! 5) in
       get_group_key name =
         (if product \<noteq> [] \<and> \<not> PACK_PATTERN_match product
          then parts ! 3 @ '' | '' @ parts ! 4 @ '' | '' @ product
          else parts ! 3 @ '' | '' @ parts ! 4)"
    using get_group_key_parts[of name] by (simp add: Let_def)
next
  fix name
  let ?parts = "parse_name_by_commas name"
  assume a: "5 < length ?parts \<and> (?parts ! 5 = [] \<or> PACK_PATTERN_match (?parts ! 5))"
  then have len: "5 < length ?parts" by simp
  have s: "strip (?parts ! 5) = ?parts ! 5" using len by (rule nth_parse_name_by_commas_strip)
  have "strip_pack_suffix (?parts ! 5) = [] \<or> PACK_PATTERN_match (strip_pack_suffix (?parts ! 5))"
  proof (cases "?parts ! 5 = []")
    case True
    then show ?thesis by (simp add: strip_pack_suffix_def)
  next
    case False
    with a have "PACK_PATTERN_match (strip (?parts ! 5))" by (simp add: s)
    then have "strip_pack_suffix (strip (?parts ! 5)) = strip (?parts ! 5)"
      by (rule strip_pack_suffix_token)
    with a False show ?thesis by (simp add: s)
  qed
  then show "get_group_key name = ?parts ! 3 @ '' | '' @ ?parts ! 4"
    using get_group_key_parts[of name] len by (auto simp: Let_def)
qed

theorem get_group_key_pack_qualifier_witness:
  "get_group_key ''A, B'' = '''' \<and>
   get_group_key (join '','' ([''A'', '' B'', '' C'', '' App1'', '' Type1''] @ ('' spr'' @ '' 16 pack'') # []))
     = get_group_key (join '','' ([''A'', '' B'', '' C'', '' App1'', '' Type1''] @ ('' spr'' @ '' 9 PACK '') # [])) \<and>
   get_group_key ''A, B, C, App1, Type1, x'' \<noteq> get_group_key ''A, B, C, App1, Type2, x'' \<and>
   get_group_key ''A, B, C, App1, Type1, spr 16 pack'' = ''App1 | Type1 | spr'' \<and>
   get_group_key ''A, B, C, App1, Type1, 13 pack'' = ''App1 | Type1''"
proof -
  note T = get_group_key_pack_qualifier[THEN conjunct2, THEN conjunct2]
  note short = T[THEN conjunct2, THEN conjunct2, THEN conjunct1, rule_format]
  note qual = T[THEN conjunct2, THEN conjunct2, THEN conjunct2, THEN conjunct1, rule_format]
  note fifth = T[THEN conjunct2, THEN conjunct2, THEN conjunct2, THEN conjunct2, THEN conjunct1, rule_format]
  note sixth = T[THEN conjunct2, THEN conjunct2, THEN conjunct2, THEN conjunct2, THEN conjunct2,
      THEN conjunct1, rule_format]
  note token = T[THEN conjunct2, THEN conjunct2, THEN conjunct2, THEN conjunct2, THEN conjunct2,
      THEN conjunct2, rule_format]
  have 1: "get_group_key ''A, B'' = ''''"
    by (rule short) (simp add: length_parse_name_by_commas)
  have q1: "PACK_SUFFIX_PATTERN_at '' 16 pack''" and q2: "PACK_SUFFIX_PATTERN_at '' 9 PACK ''"
    by code_simp+
  have 2: "get_group_key (join '','' ([''A'', '' B'', '' C'', '' App1'', '' Type1''] @ ('' spr'' @ '' 16 pack'') # []))
     = get_group_key (join '','' ([''A'', '' B'', '' C'', '' App1'', '' Type1''] @ ('' spr'' @ '' 9 PACK '') # []))"
    by (rule qual) (simp add: q1 q2)
  have p1: "parse_name_by_commas ''A, B, C, App1, Type1, x'' = [''A'', ''B'', ''C'', ''App1'', ''Type1'', ''x'']"
    and p2: "parse_name_by_commas ''A, B, C, App1, Type2, x'' = [''A'', ''B'', ''C'', ''App1'', ''Type2'', ''x'']"
    by code_simp+
  have 3: "get_group_key ''A, B, C, App1, Type1, x'' \<noteq> get_group_key ''A, B, C, App1, Type2, x''"
    by (rule fifth) (simp add: p1 p2)
  have p3: "parse_name_by_commas ''A, B, C, App1, Type1, spr 16 pack''
      = [''A'', ''B'', ''C'', ''App1'', ''Type1'', ''spr 16 pack'']"
    and s3: "strip_pack_suffix ''spr 16 pack'' = ''spr''" and m3: "\<not> PACK_PATTERN_match ''spr''"
    by code_simp+
  have 4: "get_group_key ''A, B, C, App1, Type1, spr 16 pack'' = ''App1 | Type1 | spr''"
    using sixth[of "''A, B, C, App1, Type1, spr 16 pack''"] by (simp add: p3 s3 m3)
  have p4: "parse_name_by_commas ''A, B, C, App1, Type1, 13 pack''
      = [''A'', ''B'', ''C'', ''App1'', ''Type1'', ''13 pack'']"
    and m4: "PACK_PATTERN_match ''13 pack''"
    by code_simp+
  have 5: "get_group_key ''A, B, C, App1, Type1, 13 pack'' = ''App1 | Type1''"
    using token[of "''A, B, C, App1, Type1, 13 pack''"] by (simp add: p4 m4)
  from 1 2 3 4 5 show ?thesis by blast
qed

section \<open>Range strings of invoice numbers\<close>

text \<open>The value of a string of decimal digits, and \<^verbatim>\<open>str(n)\<close> for an integer.\<close>

definition digit_value :: "char \<Rightarrow> int" where
  "digit_value c = int (length (takeWhile (\<lambda>d. d \<noteq> c) ''0123456789''))"

definition int_of_digits :: "string \<Rightarrow> int" where
  "int_of_digits s = foldl (\<lambda>a c. 10 * a + digit_value c) 0 s"

definition digit_char :: "nat \<Rightarrow> char" where
  "digit_char d = ''0123456789'' ! d"

fun str_nat :: "nat \<Rightarrow> string" where
  "str_nat n = (if n < 10 then [digit_char n] else str_nat (n div 10) @ [digit_char (n mod 10)])"

declare str_nat.simps [simp del]

definition str_int :: "int \<Rightarrow> string" where
  "str_int n = (if n < 0 then CHR ''-'' # str_nat (nat (- n)) else str_nat (nat n))"

text \<open>
  \<^verbatim>\<open>int(s)\<close> as the source calls it, on a stripped string for which \<^verbatim>\<open>isdigit()\<close> holds:
  the value of a string of decimal digits, and \<^verbatim>\<open>ValueError\<close> when a superscript digit occurs.
\<close>

definition int_py :: "string \<Rightarrow> error + int" where
  "int_py s = (if list_all is_digit s then Inr (int_of_digits s) else Inl ValueError)"

text \<open>
  The first loop: the entries that are digit strings once stripped, as integers, in input
  order; the exception of \<^verbatim>\<open>int\<close> ends it.
\<close>

fun collect_nums :: "string list \<Rightarrow> int list \<Rightarrow> error + int list" where
  "collect_nums [] nums = Inr nums"
| "collect_nums (n # ns) nums =
     (let s = strip n in
      if isdigit s then
        (case int_py s of Inl e \<Rightarrow> Inl e | Inr v \<Rightarrow> collect_nums ns (nums @ [v]))
      else collect_nums ns nums)"

text \<open>The inner loop: \<^verbatim>\<open>while j < len(nums) and nums[j] == nums[j - 1] + 1: j += 1\<close>.\<close>

function run_end :: "int list \<Rightarrow> nat \<Rightarrow> nat" where
  "run_end nums j =
     (if j < length nums \<and> nums ! j = nums ! (j - 1) + 1 then run_end nums (j + 1) else j)"
  by pat_completeness auto
termination
  by (relation "measure (\<lambda>(nums, j). length nums - j)") auto

declare run_end.simps [simp del]

lemma run_end_ge: "j \<le> run_end nums j"
proof (induction nums j rule: run_end.induct)
  case (1 nums j)
  show ?case
  proof (cases "j < length nums \<and> nums ! j = nums ! (j - 1) + 1")
    case True
    with 1 have "j + 1 \<le> run_end nums (j + 1)" by simp
    moreover from True have "run_end nums j = run_end nums (j + 1)"
      by (subst run_end.simps) auto
    ultimately show ?thesis by simp
  next
    case False
    then have "run_end nums j = j" by (subst run_end.simps) auto
    then show ?thesis by simp
  qed
qed

text \<open>The outer loop, one token for each run.\<close>

function collapse_runs :: "int list \<Rightarrow> nat \<Rightarrow> string list \<Rightarrow> string list" where
  "collapse_runs nums i parts =
     (if i < length nums then
        (let start = nums ! i;
             j = run_end nums (i + 1);
             end = nums ! (j - 1);
             parts = parts @ [if start = end then str_int start
                              else str_int start @ ''-'' @ str_int end]
         in collapse_runs nums j parts)
      else parts)"
  by pat_completeness auto
termination
proof (relation "measure (\<lambda>(nums, i, parts). length nums - i)")
  show "wf (measure (\<lambda>(nums, i, parts). length nums - i))" by simp
next
  fix nums :: "int list" and i :: nat and parts :: "string list" and x xa xb xc
  assume "i < length nums" and "xa = run_end nums (i + 1)"
  moreover have "i + 1 \<le> run_end nums (i + 1)" by (rule run_end_ge)
  ultimately show "((nums, xa, xc), (nums, i, parts)) \<in> measure (\<lambda>(nums, i, parts). length nums - i)"
    by simp
qed

declare collapse_runs.simps [simp del]

definition invoice_numbers_to_range_string :: "string list \<Rightarrow> error + string" where
  "invoice_numbers_to_range_string numbers =
     (case collect_nums numbers [] of
        Inl e \<Rightarrow> Inl e
      | Inr collected \<Rightarrow>
          (let nums = sort collected in
           if nums = [] then Inr ''()''
           else Inr (''('' @ join '';'' (collapse_runs nums 0 []) @ '')'')))"

text \<open>
  The encoding as the specification words it: the sorted numbers are cut into maximal runs
  of consecutive integers, and every run gives one token.
\<close>

fun maximal_runs :: "int list \<Rightarrow> int list list" where
  "maximal_runs [] = []"
| "maximal_runs (x # xs) =
     (case maximal_runs xs of
        [] \<Rightarrow> [[x]]
      | r # rs \<Rightarrow> if hd r = x + 1 then (x # r) # rs else [x] # r # rs)"

definition run_token :: "int list \<Rightarrow> string" where
  "run_token r = (if hd r = last r then str_int (hd r)
                  else str_int (hd r) @ ''-'' @ str_int (last r))"

text \<open>Auxiliary: how many elements after \<open>x\<close> continue the run that \<open>x\<close> starts.\<close>

fun run_length :: "int \<Rightarrow> int list \<Rightarrow> nat" where
  "run_length x [] = 0"
| "run_length x (y # ys) = (if y = x + 1 then Suc (run_length y ys) else 0)"

text \<open>Auxiliary: the entries on which \<^verbatim>\<open>int\<close> raises.\<close>

definition int_fails :: "string \<Rightarrow> bool" where
  "int_fails n = (isdigit (strip n) \<and> \<not> list_all is_digit (strip n))"

lemma collect_nums_eq:
  "collect_nums numbers nums =
     (if \<exists>n\<in>set numbers. int_fails n then Inl ValueError
      else Inr (nums @ map (int_of_digits \<circ> strip) (filter (isdigit \<circ> strip) numbers)))"
  by (induction numbers arbitrary: nums) (auto simp: Let_def int_py_def int_fails_def)

lemma run_length_le: "run_length x xs \<le> length xs"
  by (induction xs arbitrary: x) simp_all

lemma maximal_runs_Cons:
  "maximal_runs (x # xs) = (x # take (run_length x xs) xs) # maximal_runs (drop (run_length x xs) xs)"
proof (induction xs arbitrary: x)
  case Nil
  then show ?case by simp
next
  case (Cons y ys)
  have step: "maximal_runs (y # ys)
      = (y # take (run_length y ys) ys) # maximal_runs (drop (run_length y ys) ys)"
    by (rule Cons.IH)
  show ?case
  proof (cases "y = x + 1")
    case True
    have "maximal_runs (x # y # ys)
        = (x # y # take (run_length y ys) ys) # maximal_runs (drop (run_length y ys) ys)"
      by (subst maximal_runs.simps(2), subst step) (simp add: True)
    then show ?thesis using True by simp
  next
    case False
    have "maximal_runs (x # y # ys) = [x] # maximal_runs (y # ys)"
      by (subst maximal_runs.simps(2), subst step, subst step) (simp add: False)
    then show ?thesis using False by simp
  qed
qed

lemma run_end_run_length:
  "0 < j \<Longrightarrow> j \<le> length nums \<Longrightarrow>
   run_end nums j = j + run_length (nums ! (j - 1)) (drop j nums)"
proof (induction nums j rule: run_end.induct)
  case (1 nums j)
  show ?case
  proof (cases "j < length nums")
    case False
    with "1.prems" have "drop j nums = []" by simp
    moreover from False have "run_end nums j = j" by (subst run_end.simps) simp
    ultimately show ?thesis by simp
  next
    case lt: True
    then have d: "drop j nums = nums ! j # drop (Suc j) nums" by (simp add: Cons_nth_drop_Suc)
    show ?thesis
    proof (cases "nums ! j = nums ! (j - 1) + 1")
      case True
      with lt have "run_end nums j = run_end nums (j + 1)" by (subst run_end.simps) simp
      also have "\<dots> = (j + 1) + run_length (nums ! (j + 1 - 1)) (drop (j + 1) nums)"
        using lt True by (intro "1.IH") simp_all
      finally show ?thesis using True d by simp
    next
      case False
      then have "run_end nums j = j" by (subst run_end.simps) simp
      then show ?thesis using False d by simp
    qed
  qed
qed

lemma collapse_runs_eq:
  "i \<le> length nums \<Longrightarrow>
   collapse_runs nums i parts = parts @ map run_token (maximal_runs (drop i nums))"
proof (induction nums i parts rule: collapse_runs.induct)
  case (1 nums i parts)
  show ?case
  proof (cases "i < length nums")
    case False
    with "1.prems" have "drop i nums = []" by simp
    moreover from False have "collapse_runs nums i parts = parts" by (subst collapse_runs.simps) simp
    ultimately show ?thesis by simp
  next
    case lt: True
    let ?x = "nums ! i" and ?xs = "drop (Suc i) nums"
    let ?k = "run_length ?x ?xs"
    let ?j = "run_end nums (i + 1)"
    have d: "drop i nums = ?x # ?xs" using lt by (simp add: Cons_nth_drop_Suc)
    have j: "?j = Suc i + ?k" using lt run_end_run_length[of "i + 1" nums] by simp
    have k: "?k \<le> length ?xs" by (rule run_length_le)
    then have jle: "?j \<le> length nums" using j lt by simp
    have dj: "drop ?j nums = drop ?k ?xs" by (subst j) (simp add: add.commute)
    have "(?x # ?xs) ! ?k = nums ! (i + ?k)" using d lt k
      by (metis nth_drop less_imp_le_nat)
    then have lst: "last (?x # take ?k ?xs) = nums ! (?j - 1)"
      using k j by (simp add: last_conv_nth nth_Cons' min_def)
    let ?t = "if ?x = nums ! (?j - 1) then str_int ?x
              else str_int ?x @ ''-'' @ str_int (nums ! (?j - 1))"
    have tok: "run_token (?x # take ?k ?xs) = ?t"
      by (simp only: run_token_def lst list.sel)
    have "collapse_runs nums i parts = collapse_runs nums ?j (parts @ [?t])"
      using lt by (subst collapse_runs.simps) (simp add: Let_def)
    also have "\<dots> = (parts @ [?t]) @ map run_token (maximal_runs (drop ?j nums))"
      using "1.IH"[OF lt refl refl refl refl jle] .
    also have "\<dots> = parts @ run_token (?x # take ?k ?xs) # map run_token (maximal_runs (drop ?k ?xs))"
      by (simp only: tok dj append_assoc append_Cons append_Nil)
    also have "\<dots> = parts @ map run_token (maximal_runs (?x # ?xs))"
      by (simp only: maximal_runs_Cons[of ?x ?xs] list.map)
    finally show ?thesis by (simp only: d)
  qed
qed

lemma maximal_runs_nonempty: "r \<in> set (maximal_runs xs) \<Longrightarrow> r \<noteq> []"
  by (induction xs arbitrary: r) (auto split: list.splits if_splits)

lemma concat_maximal_runs: "concat (maximal_runs xs) = xs"
  by (induction xs) (auto split: list.splits)

lemma maximal_runs_consecutive:
  "r \<in> set (maximal_runs xs) \<Longrightarrow> successively (\<lambda>a b. b = a + 1) r"
proof (induction xs arbitrary: r)
  case Nil
  then show ?case by simp
next
  case (Cons x xs)
  show ?case
  proof (cases "maximal_runs xs")
    case Nil
    with Cons.prems show ?thesis by simp
  next
    case (Cons r' rs)
    then have r': "r' \<noteq> []" "successively (\<lambda>a b. b = a + 1) r'"
      using maximal_runs_nonempty[of r' xs] Cons.IH[of r'] by simp_all
    have rs: "\<And>s. s \<in> set rs \<Longrightarrow> successively (\<lambda>a b. b = a + 1) s"
      using Cons Cons.IH by simp
    show ?thesis
    proof (cases "hd r' = x + 1")
      case True
      then have "successively (\<lambda>a b. b = a + 1) (x # r')"
        using r' by (cases r') simp_all
      with True Cons Cons.prems rs show ?thesis by auto
    next
      case False
      with Cons Cons.prems rs r' show ?thesis by auto
    qed
  qed
qed

lemma maximal_runs_maximal:
  "successively (\<lambda>r r'. hd r' \<noteq> last r + 1) (maximal_runs xs)"
proof (induction xs)
  case Nil
  then show ?case by simp
next
  case (Cons x xs)
  show ?case
  proof (cases "maximal_runs xs")
    case Nil
    then show ?thesis by simp
  next
    case (Cons r rs)
    then have r: "r \<noteq> []" using maximal_runs_nonempty[of r xs] by simp
    have IH: "successively (\<lambda>r r'. hd r' \<noteq> last r + 1) (r # rs)"
      using Cons.IH Cons by simp
    show ?thesis
    proof (cases "hd r = x + 1")
      case True
      have "successively (\<lambda>r r'. hd r' \<noteq> last r + 1) ((x # r) # rs)"
        using IH r by (cases rs) simp_all
      with True Cons show ?thesis by simp
    next
      case False
      with IH Cons show ?thesis by simp
    qed
  qed
qed

lemma invoice_numbers_to_range_string_eq:
  "invoice_numbers_to_range_string numbers =
     (if \<exists>n\<in>set numbers. int_fails n then Inl ValueError
      else Inr (''('' @ join '';'' (map run_token (maximal_runs
        (sort (map (int_of_digits \<circ> strip) (filter (isdigit \<circ> strip) numbers))))) @ '')''))"
proof -
  let ?nums = "sort (map (int_of_digits \<circ> strip) (filter (isdigit \<circ> strip) numbers))"
  have r: "collapse_runs ?nums 0 [] = map run_token (maximal_runs ?nums)"
    using collapse_runs_eq[of 0 ?nums "[]"] by simp
  show ?thesis
  proof (cases "\<exists>n\<in>set numbers. int_fails n")
    case True
    then show ?thesis by (simp add: invoice_numbers_to_range_string_def collect_nums_eq)
  next
    case False
    then have c: "collect_nums numbers []
        = Inr (map (int_of_digits \<circ> strip) (filter (isdigit \<circ> strip) numbers))"
      by (simp add: collect_nums_eq)
    show ?thesis
    proof (cases "?nums = []")
      case True
      then show ?thesis using False by (simp add: invoice_numbers_to_range_string_def c)
    next
      case nonempty: False
      have "invoice_numbers_to_range_string numbers
          = Inr (''('' @ join '';'' (collapse_runs ?nums 0 []) @ '')'')"
        unfolding invoice_numbers_to_range_string_def c using nonempty by (simp add: Let_def)
      then show ?thesis using False by (simp only: r if_False)
    qed
  qed
qed

lemma invoice_numbers_to_range_string_mset:
  assumes "mset numbers = mset numbers'"
  shows "invoice_numbers_to_range_string numbers = invoice_numbers_to_range_string numbers'"
proof -
  let ?f = "\<lambda>ns. map (int_of_digits \<circ> strip) (filter (isdigit \<circ> strip) ns)"
  have "mset (?f numbers) = image_mset (int_of_digits \<circ> strip) (filter_mset (\<lambda>x. isdigit (strip x)) (mset numbers))"
    by simp
  also have "\<dots> = mset (?f numbers')"
    by (simp add: assms)
  finally have "mset (?f numbers) = mset (?f numbers')" .
  then have "mset (sort (?f numbers')) = mset (?f numbers)" by simp
  then have s: "sort (?f numbers) = sort (?f numbers')"
    by (rule properties_for_sort) simp
  have "set numbers = set numbers'" using assms by (rule mset_eq_setD)
  then show ?thesis by (simp only: invoice_numbers_to_range_string_eq s)
qed

lemma invoice_numbers_to_range_string_examples:
  "invoice_numbers_to_range_string [] = Inr ''()''"
  "invoice_numbers_to_range_string [''7''] = Inr ''(7)''"
  "invoice_numbers_to_range_string [''43'', ''93'', ''95'', ''96'', ''97'', ''100'']
     = Inr ''(43;93;95-97;100)''"
  "invoice_numbers_to_range_string [''100'', ''x'', ''97'', ''-3'', ''43'', ''+7'', ''95'', ''1_0'',
      [], CHR 0xA0 # ''96 '', ''9 3'', ''093'', ''4.0''] = Inr ''(43;93;95-97;100)''"
  "invoice_numbers_to_range_string [''5'', ''7'', ''5'', ''6''] = Inr ''(5;5-7)''"
  "invoice_numbers_to_range_string [''7'', [CHR 0xB2]] = Inl ValueError"
  by code_simp+

text \<open>
  C6, as the code has it. The range string keeps the entries that are strings of digits once
  stripped (so not every entry that \<^verbatim>\<open>int()\<close> would parse: a sign or an underscore drops the
  entry), sorts their values, cuts them into maximal runs of consecutive integers, writes a
  run of one number as that number and a longer run as first-last, joins the tokens with a
  semicolon and puts the result in parentheses; an entry with a superscript digit makes it
  raise \<^verbatim>\<open>ValueError\<close>. The three examples hold, and the outcome does not depend on the
  order of the entries.
\<close>

theorem invoice_numbers_to_range_string_spec:
  "invoice_numbers_to_range_string [] = Inr ''()'' \<and>
   invoice_numbers_to_range_string [''7''] = Inr ''(7)'' \<and>
   invoice_numbers_to_range_string [''43'', ''93'', ''95'', ''96'', ''97'', ''100'']
     = Inr ''(43;93;95-97;100)'' \<and>
   invoice_numbers_to_range_string [''100'', ''x'', ''97'', ''-3'', ''43'', ''+7'', ''95'', ''1_0'',
      [], CHR 0xA0 # ''96 '', ''9 3'', ''093'', ''4.0''] = Inr ''(43;93;95-97;100)'' \<and>
   invoice_numbers_to_range_string [''5'', ''7'', ''5'', ''6''] = Inr ''(5;5-7)'' \<and>
   invoice_numbers_to_range_string [''7'', [CHR 0xB2]] = Inl ValueError \<and>
   (\<forall>numbers. invoice_numbers_to_range_string numbers =
      (if \<exists>n\<in>set numbers. isdigit (strip n) \<and> \<not> list_all is_digit (strip n) then Inl ValueError
       else Inr (''('' @ join '';'' (map run_token (maximal_runs
          (sort (map (int_of_digits \<circ> strip) (filter (isdigit \<circ> strip) numbers))))) @ '')''))) \<and>
   (\<forall>nums. concat (maximal_runs nums) = nums \<and>
      (\<forall>r\<in>set (maximal_runs nums). r \<noteq> [] \<and> successively (\<lambda>a b. b = a + 1) r) \<and>
      successively (\<lambda>r r'. hd r' \<noteq> last r + 1) (maximal_runs nums)) \<and>
   (\<forall>numbers numbers'. mset numbers = mset numbers' \<longrightarrow>
      invoice_numbers_to_range_string numbers = invoice_numbers_to_range_string numbers')"
  using invoice_numbers_to_range_string_examples
    invoice_numbers_to_range_string_eq[unfolded int_fails_def]
    concat_maximal_runs maximal_runs_nonempty maximal_runs_consecutive maximal_runs_maximal
    invoice_numbers_to_range_string_mset
  by (intro conjI allI impI ballI) blast+

text \<open>
  The entry \<open>-3\<close>, which \<^verbatim>\<open>int()\<close> parses, is not kept: the result is that of the empty list.
\<close>

theorem invoice_numbers_to_range_string_counterexample:
  "invoice_numbers_to_range_string [''-3''] = Inr ''()'' \<and>
   invoice_numbers_to_range_string [''-3'', ''5''] = invoice_numbers_to_range_string [''5'']"
  by code_simp

theorem invoice_numbers_to_range_string_spec_witness:
  "invoice_numbers_to_range_string [''96'', ''x'', ''43'', ''95''] = Inr ''(43;95-96)'' \<and>
   invoice_numbers_to_range_string [''43'', ''95'', ''x'', ''96''] = Inr ''(43;95-96)'' \<and>
   [95, 96] \<in> set (maximal_runs [43, 95, 96]) \<and> successively (\<lambda>a b. b = a + 1) [95, 96 :: int]"
proof -
  note T = invoice_numbers_to_range_string_spec
  note runs = T[THEN conjunct2, THEN conjunct2, THEN conjunct2, THEN conjunct2, THEN conjunct2,
      THEN conjunct2, THEN conjunct2, THEN conjunct1, rule_format]
  note perm = T[THEN conjunct2, THEN conjunct2, THEN conjunct2, THEN conjunct2, THEN conjunct2,
      THEN conjunct2, THEN conjunct2, THEN conjunct2, rule_format]
  have m: "mset [''96'', ''x'', ''43'', ''95''] = mset [''43'', ''95'', ''x'', ''96'']" by simp
  have a: "invoice_numbers_to_range_string [''43'', ''95'', ''x'', ''96''] = Inr ''(43;95-96)''"
    by code_simp
  have b: "invoice_numbers_to_range_string [''96'', ''x'', ''43'', ''95'']
      = invoice_numbers_to_range_string [''43'', ''95'', ''x'', ''96'']"
    using m by (rule perm)
  have r: "[95, 96] \<in> set (maximal_runs [43, 95, 96])" by simp
  have "[95, 96 :: int] \<noteq> [] \<and> successively (\<lambda>a b. b = a + 1) [95, 96 :: int]"
    using r by (rule runs[THEN conjunct2, THEN conjunct1, rule_format])
  with a b r show ?thesis by simp
qed

section \<open>The name of the shipment workbook\<close>

text \<open>The loop over the parts of the folder name: pack parts dropped, pack suffixes cut.\<close>

fun collect_i_parts :: "string list \<Rightarrow> string list \<Rightarrow> string list" where
  "collect_i_parts [] i_parts = i_parts"
| "collect_i_parts (p # ps) i_parts =
     (let p = strip p in
      if PACK_PATTERN_match p then collect_i_parts ps i_parts
      else (let p = strip_pack_suffix p in
            if p \<noteq> [] then collect_i_parts ps (i_parts @ [p])
            else collect_i_parts ps i_parts))"

text \<open>\<^verbatim>\<open>re.sub(r'[\\/:*?"<>|]', "_", raw)\<close>\<close>

definition illegal_char :: "char \<Rightarrow> bool" where
  "illegal_char c = (c \<in> set [CHR 0x5C, CHR ''/'', CHR '':'', CHR ''*'', CHR ''?'', CHR 0x22,
                               CHR ''<'', CHR ''>'', CHR ''|''])"

definition replace_illegal :: "string \<Rightarrow> string" where
  "replace_illegal raw = map (\<lambda>c. if illegal_char c then CHR ''_'' else c) raw"

text \<open>\<^verbatim>\<open>s.strip(chars)\<close>\<close>

definition strip_chars :: "string \<Rightarrow> string \<Rightarrow> string" where
  "strip_chars chars s =
     rev (dropWhile (\<lambda>c. c \<in> set chars) (rev (dropWhile (\<lambda>c. c \<in> set chars) s)))"

definition build_upload_table_filename ::
  "string \<Rightarrow> string \<Rightarrow> string list option \<Rightarrow> error + string" where
  "build_upload_table_filename template_name invoice_folder_name invoice_numbers =
     (let t_parts = parse_name_by_commas template_name;
          i_parts = collect_i_parts (parse_name_by_commas invoice_folder_name) [];
          first_part =
            (case invoice_numbers of
               Some (n # ns) \<Rightarrow>
                 (case invoice_numbers_to_range_string (n # ns) of
                    Inl e \<Rightarrow> Inl e
                  | Inr range_str \<Rightarrow>
                      Inr (range_str @ '' '' @ str_nat (length (n # ns)) @ '' pcs.''))
             | _ \<Rightarrow> Inr (case t_parts of [] \<Rightarrow> ''() pcs.'' | t # _ \<Rightarrow> t))
      in case first_part of
           Inl e \<Rightarrow> Inl e
         | Inr first_part \<Rightarrow>
             (let result = [first_part] @ (if length t_parts > 1 then take 1 (drop 1 t_parts) else [])
                           @ drop 2 i_parts;
                  name_parts = filter (\<lambda>p. p \<noteq> []) result;
                  raw = join '', '' name_parts;
                  cleaned = strip_chars '',_'' (replace_illegal raw)
              in Inr (if cleaned \<noteq> [] then cleaned else ''upload_table'')))"

lemma digit_char_is_digit: "d < 10 \<Longrightarrow> is_digit (digit_char d)"
  unfolding digit_char_def is_digit_def by (rule nth_mem) simp

lemma str_nat_digits: "str_nat n \<noteq> [] \<and> (\<forall>c\<in>set (str_nat n). is_digit c)"
proof (induction n rule: str_nat.induct)
  case (1 n)
  show ?case
  proof (cases "n < 10")
    case True
    then show ?thesis by (subst (1 2) str_nat.simps) (simp add: digit_char_is_digit)
  next
    case False
    with 1 have "\<forall>c\<in>set (str_nat (n div 10)). is_digit c" by simp
    moreover have "is_digit (digit_char (n mod 10))" by (rule digit_char_is_digit) simp
    ultimately show ?thesis using False by (subst (1 2) str_nat.simps) auto
  qed
qed

lemma str_int_chars: "c \<in> set (str_int n) \<Longrightarrow> is_digit c \<or> c = CHR ''-''"
  using str_nat_digits by (auto simp: str_int_def split: if_splits)

lemma run_token_chars: "c \<in> set (run_token r) \<Longrightarrow> is_digit c \<or> c = CHR ''-''"
  using str_int_chars by (auto simp: run_token_def split: if_splits)

lemma set_join: "set (join sep xs) \<subseteq> set sep \<union> \<Union> (set ` set xs)"
  by (induction sep xs rule: join.induct) auto

text \<open>The characters that neither separate parts nor are replaced in a file name.\<close>

definition plain_char :: "char \<Rightarrow> bool" where
  "plain_char c = (c \<noteq> CHR '','' \<and> \<not> illegal_char c)"

lemma plain_digit: "is_digit c \<Longrightarrow> plain_char c"
  unfolding is_digit_def by (simp, elim disjE) (simp_all add: plain_char_def illegal_char_def)

lemma plain_literals:
  "plain_char (CHR ''('')" "plain_char (CHR '')'')" "plain_char (CHR '';'')" "plain_char (CHR ''-'')"
  "plain_char (CHR '' '')" "plain_char (CHR ''p'')" "plain_char (CHR ''c'')" "plain_char (CHR ''s'')"
  "plain_char (CHR ''.'')"
  by (simp_all add: plain_char_def illegal_char_def)

lemma range_string_plain:
  assumes "invoice_numbers_to_range_string numbers = Inr range_str"
  shows "\<exists>body. range_str = CHR ''('' # body @ '')'' \<and> (\<forall>c\<in>set body. plain_char c)"
proof -
  let ?toks = "map run_token (maximal_runs
        (sort (map (int_of_digits \<circ> strip) (filter (isdigit \<circ> strip) numbers))))"
  have "\<forall>c\<in>set (join '';'' ?toks). plain_char c"
  proof
    fix c assume "c \<in> set (join '';'' ?toks)"
    then have "c \<in> set '';'' \<or> (\<exists>t\<in>set ?toks. c \<in> set t)" using set_join[of "'';''" ?toks] by auto
    then show "plain_char c"
    proof
      assume "c \<in> set '';''"
      then show ?thesis by (simp add: plain_literals)
    next
      assume "\<exists>t\<in>set ?toks. c \<in> set t"
      then obtain r where "c \<in> set (run_token r)" by auto
      then show ?thesis using run_token_chars plain_digit plain_literals(4) by blast
    qed
  qed
  moreover have "range_str = ''('' @ join '';'' ?toks @ '')''"
    using assms by (simp add: invoice_numbers_to_range_string_eq split: if_splits)
  ultimately show ?thesis by simp
qed

lemma range_first_part:
  fixes numbers :: "string list"
  assumes r: "invoice_numbers_to_range_string numbers = Inr range_str"
  defines "first \<equiv> range_str @ '' '' @ str_nat (length numbers) @ '' pcs.''"
  shows "first \<noteq> []" "\<forall>c\<in>set first. plain_char c" "hd first = CHR ''(''" "last first = CHR ''.''"
    "strip first = first"
proof -
  from range_string_plain[OF r] obtain body where
    r: "range_str = CHR ''('' # body @ '')''"
    and body: "\<forall>c\<in>set body. plain_char c" by blast
  show "first \<noteq> []" by (simp add: first_def)
  show "\<forall>c\<in>set first. plain_char c"
    using body str_nat_digits[of "length numbers"] plain_digit
    by (auto simp: first_def r plain_literals)
  show hd: "hd first = CHR ''(''" by (simp add: first_def r)
  show last: "last first = CHR ''.''" by (simp add: first_def)
  have "\<not> is_space (CHR ''('')" "\<not> is_space (CHR ''.'')" by (simp_all add: is_space_def)
  then show "strip first = first" using hd last by (intro strip_fixed) simp
qed

lemma replace_illegal_plain: "\<forall>c\<in>set s. plain_char c \<Longrightarrow> replace_illegal s = s"
  by (simp add: replace_illegal_def plain_char_def map_idI)

lemma replace_illegal_append: "replace_illegal (a @ b) = replace_illegal a @ replace_illegal b"
  by (simp add: replace_illegal_def)

lemma dropWhile_hd: "s \<noteq> [] \<Longrightarrow> \<not> P (hd s) \<Longrightarrow> dropWhile P s = s"
  by (cases s) simp_all

lemma split_on_in_set: "s \<in> set (split_on c x) \<Longrightarrow> c \<notin> set s"
  by (induction x arbitrary: s) (auto split: if_splits list.splits)

lemma set_strip: "set (strip s) \<subseteq> set s"
proof -
  have "set (strip s) \<subseteq> set (dropWhile is_space s)"
    unfolding strip_def using set_dropWhileD by fastforce
  then show ?thesis using set_dropWhileD by fastforce
qed

lemma parse_name_by_commas_no_comma:
  "s \<in> set (parse_name_by_commas name) \<Longrightarrow> CHR '','' \<notin> set s"
  using split_on_in_set set_strip by (fastforce simp: parse_name_by_commas_def)

text \<open>
  What the last lines of \<open>build_upload_table_filename\<close> leave of a first part that needs
  no cleaning.
\<close>

lemma first_part_kept:
  assumes ne: "first \<noteq> []" and plain: "\<forall>c\<in>set first. plain_char c"
    and hd: "hd first \<noteq> CHR ''_''" and last: "last first \<noteq> CHR ''_''"
    and stripped: "strip first = first"
  shows "hd (parse_name_by_commas
           (let name_parts = filter (\<lambda>p. p \<noteq> []) ([first] @ rest);
                raw = join '', '' name_parts;
                cleaned = strip_chars '',_'' (replace_illegal raw)
            in if cleaned \<noteq> [] then cleaned else ''upload_table'')) = first"
proof -
  let ?P = "\<lambda>c. c \<in> set '',_''"
  let ?rest = "filter (\<lambda>p. p \<noteq> []) rest"
  have nocomma: "CHR '','' \<notin> set first" using plain by (auto simp: plain_char_def)
  have hdP: "\<not> ?P (hd first)" using hd nocomma ne by (cases first) auto
  have "last first \<in> set first" using ne by (rule last_in_set)
  with nocomma have "last first \<noteq> CHR '',''" by metis
  with last have lastP: "\<not> ?P (last first)" by simp
  have parts: "filter (\<lambda>p. p \<noteq> []) ([first] @ rest) = first # ?rest" using ne by simp
  show ?thesis
  proof (cases ?rest)
    case Nil
    have "dropWhile ?P first = first" using ne hdP by (rule dropWhile_hd)
    moreover have "dropWhile ?P (rev first) = rev first"
      using ne lastP by (intro dropWhile_hd) (simp_all add: hd_rev)
    ultimately have "strip_chars '',_'' first = first" by (simp add: strip_chars_def)
    then have "(let name_parts = filter (\<lambda>p. p \<noteq> []) ([first] @ rest);
                raw = join '', '' name_parts;
                cleaned = strip_chars '',_'' (replace_illegal raw)
            in if cleaned \<noteq> [] then cleaned else ''upload_table'') = first"
      unfolding Let_def parts Nil using ne by (simp add: replace_illegal_plain[OF plain])
    moreover have "parse_name_by_commas first = [strip first]"
      using nocomma by (simp add: parse_name_by_commas_def split_on_nosep)
    ultimately show ?thesis using stripped by simp
  next
    case (Cons r rs)
    define Y where "Y = replace_illegal (join '', '' (r # rs))"
    define Z where "Z = rev (dropWhile ?P (rev Y @ '' ''))"
    have raw: "join '', '' (first # r # rs) = first @ '', '' @ join '', '' (r # rs)" by simp
    have clean: "replace_illegal (join '', '' (first # r # rs)) = first @ CHR '','' # CHR '' '' # Y"
      by (simp add: raw replace_illegal_append replace_illegal_plain[OF plain] Y_def)
        (simp add: replace_illegal_def illegal_char_def)
    have left: "dropWhile ?P (first @ CHR '','' # CHR '' '' # Y) = first @ CHR '','' # CHR '' '' # Y"
      using ne hdP by (intro dropWhile_hd) simp_all
    have "CHR '' '' \<in> set (rev Y @ '' '')" "\<not> ?P (CHR '' '')" by simp_all
    then have "dropWhile ?P ((rev Y @ '' '') @ CHR '','' # rev first)
        = dropWhile ?P (rev Y @ '' '') @ CHR '','' # rev first"
      by (rule dropWhile_append1)
    then have right: "rev (dropWhile ?P (rev (first @ CHR '','' # CHR '' '' # Y))) = first @ CHR '','' # Z"
      by (simp add: Z_def)
    have cleaned: "strip_chars '',_'' (replace_illegal (join '', '' (first # r # rs))) = first @ CHR '','' # Z"
      unfolding strip_chars_def clean left right ..
    have "parse_name_by_commas (first @ CHR '','' # Z) = strip first # map strip (split_on (CHR '','') Z)"
      using nocomma by (simp add: parse_name_by_commas_def split_on_append_sep)
    moreover have "(let name_parts = filter (\<lambda>p. p \<noteq> []) ([first] @ rest);
                raw = join '', '' name_parts;
                cleaned = strip_chars '',_'' (replace_illegal raw)
            in if cleaned \<noteq> [] then cleaned else ''upload_table'') = first @ CHR '','' # Z"
      unfolding Let_def parts Cons cleaned by simp
    ultimately show ?thesis using stripped by simp
  qed
qed

text \<open>The parts that follow the first part, and the last lines of the function.\<close>

definition rest_parts :: "string \<Rightarrow> string \<Rightarrow> string list" where
  "rest_parts template_name invoice_folder_name =
     (if length (parse_name_by_commas template_name) > 1
      then take 1 (drop 1 (parse_name_by_commas template_name)) else [])
     @ drop 2 (collect_i_parts (parse_name_by_commas invoice_folder_name) [])"

definition finish_name :: "string \<Rightarrow> string list \<Rightarrow> string" where
  "finish_name first rest =
     (let name_parts = filter (\<lambda>p. p \<noteq> []) ([first] @ rest);
          raw = join '', '' name_parts;
          cleaned = strip_chars '',_'' (replace_illegal raw)
      in if cleaned \<noteq> [] then cleaned else ''upload_table'')"

lemma build_upload_table_filename_absent:
  assumes "ns = None \<or> ns = Some []"
  shows "build_upload_table_filename template_name folder_name ns
         = Inr (finish_name (hd (parse_name_by_commas template_name))
                  (rest_parts template_name folder_name))"
proof -
  obtain t ts where parts: "parse_name_by_commas template_name = t # ts"
    using split_on_not_Nil[of "CHR '',''" template_name]
    by (cases "parse_name_by_commas template_name") (auto simp: parse_name_by_commas_def)
  from assms show ?thesis
    by (auto simp: build_upload_table_filename_def finish_name_def rest_parts_def Let_def parts)
qed

lemma build_upload_table_filename_present:
  assumes "ns \<noteq> []"
  shows "build_upload_table_filename template_name folder_name (Some ns)
         = (case invoice_numbers_to_range_string ns of
              Inl e \<Rightarrow> Inl e
            | Inr range_str \<Rightarrow>
                Inr (finish_name (range_str @ '' '' @ str_nat (length ns) @ '' pcs.'')
                       (rest_parts template_name folder_name)))"
proof -
  from assms obtain n ms where ns: "ns = n # ms" by (cases ns) auto
  show ?thesis
    by (cases "invoice_numbers_to_range_string (n # ms)")
      (simp_all add: ns build_upload_table_filename_def finish_name_def rest_parts_def Let_def)
qed

lemma hd_parse_finish_name:
  assumes "first \<noteq> []" "\<forall>c\<in>set first. plain_char c"
    "hd first \<noteq> CHR ''_''" "last first \<noteq> CHR ''_''" "strip first = first"
  shows "hd (parse_name_by_commas (finish_name first rest)) = first"
  unfolding finish_name_def using assms by (rule first_part_kept)

lemma build_upload_table_filename_numbers:
  assumes "ns \<noteq> []" and r: "invoice_numbers_to_range_string ns = Inr range_str"
  shows "\<exists>name. build_upload_table_filename template_name folder_name (Some ns) = Inr name \<and>
           hd (parse_name_by_commas name) = range_str @ '' '' @ str_nat (length ns) @ '' pcs.''"
proof -
  let ?first = "range_str @ '' '' @ str_nat (length ns) @ '' pcs.''"
  note f = range_first_part[OF r]
  have hd: "hd ?first \<noteq> CHR ''_''" and last: "last ?first \<noteq> CHR ''_''"
    using f(3,4) by simp_all
  have "hd (parse_name_by_commas (finish_name ?first (rest_parts template_name folder_name))) = ?first"
    using f(1) f(2) hd last f(5) by (rule hd_parse_finish_name)
  then show ?thesis
    by (simp add: build_upload_table_filename_present[OF assms(1)] r)
qed

lemma build_upload_table_filename_template:
  assumes ns: "ns = None \<or> ns = Some []"
    and ne: "hd (parse_name_by_commas template_name) \<noteq> []"
    and legal: "\<forall>c\<in>set (hd (parse_name_by_commas template_name)). \<not> illegal_char c"
    and hd: "hd (hd (parse_name_by_commas template_name)) \<noteq> CHR ''_''"
    and last: "last (hd (parse_name_by_commas template_name)) \<noteq> CHR ''_''"
  shows "\<exists>name. build_upload_table_filename template_name folder_name ns = Inr name \<and>
           hd (parse_name_by_commas name) = hd (parse_name_by_commas template_name)"
proof -
  let ?t = "hd (parse_name_by_commas template_name)"
  obtain t ts where parts: "parse_name_by_commas template_name = t # ts"
    using split_on_not_Nil[of "CHR '',''" template_name]
    by (cases "parse_name_by_commas template_name") (auto simp: parse_name_by_commas_def)
  then have t: "?t = t" by simp
  have "t \<in> set (parse_name_by_commas template_name)" by (simp add: parts)
  then have "CHR '','' \<notin> set t" by (rule parse_name_by_commas_no_comma)
  then have plain: "\<forall>c\<in>set ?t. plain_char c"
    using legal unfolding t plain_char_def by metis
  have "strip (parse_name_by_commas template_name ! 0) = parse_name_by_commas template_name ! 0"
    by (rule nth_parse_name_by_commas_strip) (simp add: parts)
  then have stripped: "strip ?t = ?t" by (simp add: parts)
  have "hd (parse_name_by_commas (finish_name ?t (rest_parts template_name folder_name))) = ?t"
    using ne plain hd last stripped by (rule hd_parse_finish_name)
  then show ?thesis
    by (simp add: build_upload_table_filename_absent[OF ns])
qed

lemma build_upload_table_filename_examples:
  "build_upload_table_filename ''() pcs., LI, 40_2023'' ''A, B, Add. VP-CH-2510-23, ZLPK (TS), pine'' None
     = Inr ''() pcs., LI, Add. VP-CH-2510-23, ZLPK (TS), pine''"
  "build_upload_table_filename ''() pcs., LI, 40_2023'' ''A, B, Add. VP-CH-2510-23, ZLPK (TS), pine''
     (Some [''43'', ''93'']) = Inr ''(43;93) 2 pcs., LI, Add. VP-CH-2510-23, ZLPK (TS), pine''"
  "parse_name_by_commas ''() pcs., LI, Add. VP-CH-2510-23, ZLPK (TS), pine''
     = [''() pcs.'', ''LI'', ''Add. VP-CH-2510-23'', ''ZLPK (TS)'', ''pine'']"
  "parse_name_by_commas ''(43;93) 2 pcs., LI, Add. VP-CH-2510-23, ZLPK (TS), pine''
     = [''(43;93) 2 pcs.'', ''LI'', ''Add. VP-CH-2510-23'', ''ZLPK (TS)'', ''pine'']"
  "build_upload_table_filename ''() pcs., LI, 40_2023'' ''A, B, C, spr 16 pack, 13 pack, 1:2'' (Some [''7'', ''x''])
     = Inr ''(7) 2 pcs., LI, C, spr, 1_2''"
  "build_upload_table_filename ''() pcs., LI'' ''A, B'' (Some [''7'', [CHR 0xB2]]) = Inl ValueError"
  "build_upload_table_filename '','' ''A, B'' None = Inr ''upload_table''"
  by code_simp+

text \<open>
  C7, as the code has it. For the template \<open>() pcs., LI, 40_2023\<close> and the folder
  \<open>A, B, Add. VP-CH-2510-23, ZLPK (TS), pine\<close> the first two parts of the name are
  \<open>() pcs.\<close> and \<open>LI\<close>, and the numbers 43 and 93 change the first part only, to
  \<open>(43;93) 2 pcs.\<close>. In general a non-empty list of numbers makes the first part the
  range string, the count of the entries and \<open>pcs.\<close> (or the function raises what the
  range string raises); with no list or an empty list the first part is the first part of
  the template, when that part is not empty, holds no character that the cleaning replaces
  and neither starts nor ends with an underscore.
\<close>

theorem build_upload_table_filename_first_part:
  "build_upload_table_filename ''() pcs., LI, 40_2023'' ''A, B, Add. VP-CH-2510-23, ZLPK (TS), pine'' None
     = Inr ''() pcs., LI, Add. VP-CH-2510-23, ZLPK (TS), pine'' \<and>
   take 2 (parse_name_by_commas ''() pcs., LI, Add. VP-CH-2510-23, ZLPK (TS), pine'')
     = [''() pcs.'', ''LI''] \<and>
   build_upload_table_filename ''() pcs., LI, 40_2023'' ''A, B, Add. VP-CH-2510-23, ZLPK (TS), pine''
     (Some [''43'', ''93'']) = Inr ''(43;93) 2 pcs., LI, Add. VP-CH-2510-23, ZLPK (TS), pine'' \<and>
   parse_name_by_commas ''(43;93) 2 pcs., LI, Add. VP-CH-2510-23, ZLPK (TS), pine''
     = ''(43;93) 2 pcs.'' # tl (parse_name_by_commas ''() pcs., LI, Add. VP-CH-2510-23, ZLPK (TS), pine'') \<and>
   build_upload_table_filename ''() pcs., LI, 40_2023'' ''A, B, C, spr 16 pack, 13 pack, 1:2''
     (Some [''7'', ''x'']) = Inr ''(7) 2 pcs., LI, C, spr, 1_2'' \<and>
   (\<forall>template_name folder_name ns range_str.
      ns \<noteq> [] \<and> invoice_numbers_to_range_string ns = Inr range_str \<longrightarrow>
      (\<exists>name. build_upload_table_filename template_name folder_name (Some ns) = Inr name \<and>
         hd (parse_name_by_commas name) = range_str @ '' '' @ str_nat (length ns) @ '' pcs.'')) \<and>
   (\<forall>template_name folder_name ns e.
      ns \<noteq> [] \<and> invoice_numbers_to_range_string ns = Inl e \<longrightarrow>
      build_upload_table_filename template_name folder_name (Some ns) = Inl e) \<and>
   (\<forall>template_name folder_name ns.
      (ns = None \<or> ns = Some []) \<and>
      hd (parse_name_by_commas template_name) \<noteq> [] \<and>
      (\<forall>c\<in>set (hd (parse_name_by_commas template_name)). \<not> illegal_char c) \<and>
      hd (hd (parse_name_by_commas template_name)) \<noteq> CHR ''_'' \<and>
      last (hd (parse_name_by_commas template_name)) \<noteq> CHR ''_'' \<longrightarrow>
      (\<exists>name. build_upload_table_filename template_name folder_name ns = Inr name \<and>
         hd (parse_name_by_commas name) = hd (parse_name_by_commas template_name)))"
proof (intro conjI allI impI)
  show "build_upload_table_filename ''() pcs., LI, 40_2023'' ''A, B, Add. VP-CH-2510-23, ZLPK (TS), pine'' None
     = Inr ''() pcs., LI, Add. VP-CH-2510-23, ZLPK (TS), pine''"
    by (rule build_upload_table_filename_examples)
  show "take 2 (parse_name_by_commas ''() pcs., LI, Add. VP-CH-2510-23, ZLPK (TS), pine'')
     = [''() pcs.'', ''LI'']"
    by (simp only: build_upload_table_filename_examples) simp
  show "build_upload_table_filename ''() pcs., LI, 40_2023'' ''A, B, Add. VP-CH-2510-23, ZLPK (TS), pine''
     (Some [''43'', ''93'']) = Inr ''(43;93) 2 pcs., LI, Add. VP-CH-2510-23, ZLPK (TS), pine''"
    by (rule build_upload_table_filename_examples)
  show "parse_name_by_commas ''(43;93) 2 pcs., LI, Add. VP-CH-2510-23, ZLPK (TS), pine''
     = ''(43;93) 2 pcs.'' # tl (parse_name_by_commas ''() pcs., LI, Add. VP-CH-2510-23, ZLPK (TS), pine'')"
    by (simp only: build_upload_table_filename_examples) simp
  show "build_upload_table_filename ''() pcs., LI, 40_2023'' ''A, B, C, spr 16 pack, 13 pack, 1:2''
     (Some [''7'', ''x'']) = Inr ''(7) 2 pcs., LI, C, spr, 1_2''"
    by (rule build_upload_table_filename_examples)
next
  fix template_name folder_name and ns :: "string list" and range_str
  assume "ns \<noteq> [] \<and> invoice_numbers_to_range_string ns = Inr range_str"
  then show "\<exists>name. build_upload_table_filename template_name folder_name (Some ns) = Inr name \<and>
         hd (parse_name_by_commas name) = range_str @ '' '' @ str_nat (length ns) @ '' pcs.''"
    using build_upload_table_filename_numbers by blast
next
  fix template_name folder_name and ns :: "string list" and e
  assume "ns \<noteq> [] \<and> invoice_numbers_to_range_string ns = Inl e"
  then show "build_upload_table_filename template_name folder_name (Some ns) = Inl e"
    by (simp add: build_upload_table_filename_present)
next
  fix template_name folder_name and ns :: "string list option"
  assume "(ns = None \<or> ns = Some []) \<and>
      hd (parse_name_by_commas template_name) \<noteq> [] \<and>
      (\<forall>c\<in>set (hd (parse_name_by_commas template_name)). \<not> illegal_char c) \<and>
      hd (hd (parse_name_by_commas template_name)) \<noteq> CHR ''_'' \<and>
      last (hd (parse_name_by_commas template_name)) \<noteq> CHR ''_''"
  then show "\<exists>name. build_upload_table_filename template_name folder_name ns = Inr name \<and>
         hd (parse_name_by_commas name) = hd (parse_name_by_commas template_name)"
    by (intro build_upload_table_filename_template) blast+
qed

text \<open>
  An empty list of numbers gives the name that no list gives, with the first part of the
  template and not \<open>() 0 pcs.\<close>; and the cleaning takes the underscore off the first part
  \<open>_x\<close> of a template.
\<close>

theorem build_upload_table_filename_counterexample:
  "build_upload_table_filename ''() pcs., LI, 40_2023'' ''A, B, Add. VP-CH-2510-23, ZLPK (TS), pine''
     (Some []) = Inr ''() pcs., LI, Add. VP-CH-2510-23, ZLPK (TS), pine'' \<and>
   invoice_numbers_to_range_string [] = Inr ''()'' \<and> str_nat (length ([] :: string list)) = ''0'' \<and>
   build_upload_table_filename ''_x, LI'' ''A, B, C'' None = Inr ''x, LI, C''"
  by code_simp

theorem build_upload_table_filename_first_part_witness:
  "(\<exists>name. build_upload_table_filename ''T, LI'' ''A, B, C'' (Some [''5'', ''x'']) = Inr name \<and>
      hd (parse_name_by_commas name) = ''(5) 2 pcs.'') \<and>
   build_upload_table_filename ''T, LI'' ''A, B, C'' (Some [[CHR 0xB3]]) = Inl ValueError \<and>
   (\<exists>name. build_upload_table_filename ''() pcs., LI'' ''A, B, C'' (Some []) = Inr name \<and>
      hd (parse_name_by_commas name) = ''() pcs.'')"
proof -
  note T = build_upload_table_filename_first_part[THEN conjunct2, THEN conjunct2, THEN conjunct2,
      THEN conjunct2, THEN conjunct2]
  note numbers = T[THEN conjunct1, rule_format]
  note raises = T[THEN conjunct2, THEN conjunct1, rule_format]
  note template = T[THEN conjunct2, THEN conjunct2, rule_format]
  have r: "invoice_numbers_to_range_string [''5'', ''x''] = Inr ''(5)''"
    and n: "''(5)'' @ '' '' @ str_nat (length [''5'', ''x'']) @ '' pcs.'' = ''(5) 2 pcs.''"
    and e: "invoice_numbers_to_range_string [[CHR 0xB3]] = Inl ValueError"
    by code_simp+
  have "\<exists>name. build_upload_table_filename ''T, LI'' ''A, B, C'' (Some [''5'', ''x'']) = Inr name \<and>
      hd (parse_name_by_commas name) = ''(5)'' @ '' '' @ str_nat (length [''5'', ''x'']) @ '' pcs.''"
    by (rule numbers) (simp add: r)
  then have 1: "\<exists>name. build_upload_table_filename ''T, LI'' ''A, B, C'' (Some [''5'', ''x'']) = Inr name \<and>
      hd (parse_name_by_commas name) = ''(5) 2 pcs.''"
    by (simp only: n)
  have 2: "build_upload_table_filename ''T, LI'' ''A, B, C'' (Some [[CHR 0xB3]]) = Inl ValueError"
    by (rule raises) (simp add: e)
  have p: "hd (parse_name_by_commas ''() pcs., LI'') = ''() pcs.''" by code_simp
  have "\<exists>name. build_upload_table_filename ''() pcs., LI'' ''A, B, C'' (Some []) = Inr name \<and>
      hd (parse_name_by_commas name) = hd (parse_name_by_commas ''() pcs., LI'')"
    by (rule template) (simp add: p illegal_char_def)
  with 1 2 p show ?thesis by simp
qed

section \<open>Supporting documents of an invoice folder\<close>

text \<open>
  The class \<^verbatim>\<open>\w\<close>: the underscore and what \<^verbatim>\<open>str.isalnum()\<close> accepts, which below 256 are
  the ASCII letters and digits, the ordinal indicators, the micro sign, the superscript
  digits, the three fractions and the accented letters.
\<close>

definition is_word :: "char \<Rightarrow> bool" where
  "is_word c =
     (let n = (of_char c :: nat) in
      (48 \<le> n \<and> n \<le> 57) \<or> (65 \<le> n \<and> n \<le> 90) \<or> n = 95 \<or> (97 \<le> n \<and> n \<le> 122) \<or>
      n \<in> set [170, 178, 179, 181, 185, 186, 188, 189, 190] \<or>
      (192 \<le> n \<and> n \<le> 214) \<or> (216 \<le> n \<and> n \<le> 246) \<or> (248 \<le> n \<and> n \<le> 255))"

text \<open>The class \<^verbatim>\<open>[\w-]\<close>.\<close>

definition is_token_char :: "char \<Rightarrow> bool" where
  "is_token_char c = (is_word c \<or> c = CHR ''-'')"

text \<open>
  \<^verbatim>\<open>_ESD_PATTERN = re.compile(r"^([\w-]+)\.pdf$", re.IGNORECASE)\<close>, used with \<^verbatim>\<open>.match\<close>.
  The dot is not in the class, so the greedy repetition is the longest prefix.
\<close>

definition ESD_PATTERN_match :: "string \<Rightarrow> bool" where
  "ESD_PATTERN_match name =
     (let token = takeWhile is_token_char name;
          r = dropWhile is_token_char name
      in token \<noteq> [] \<and> lower (take 4 r) = ''.pdf'' \<and> at_end (drop 4 r))"

text \<open>
  \<^verbatim>\<open>_GTD_PATTERN = re.compile(r"^GTD_(\d+)_(\d+)_(\d+)\.pdf$", re.IGNORECASE)\<close>, used with
  \<^verbatim>\<open>.match\<close>; the result holds the three groups.
\<close>

definition GTD_PATTERN_match :: "string \<Rightarrow> (string \<times> string \<times> string) option" where
  "GTD_PATTERN_match name =
     (let r0 = drop 4 name;
          a = takeWhile is_digit r0; r1 = dropWhile is_digit r0;
          b = takeWhile is_digit (drop 1 r1); r2 = dropWhile is_digit (drop 1 r1);
          c = takeWhile is_digit (drop 1 r2); r3 = dropWhile is_digit (drop 1 r2)
      in if lower (take 4 name) = ''gtd_'' \<and> a \<noteq> [] \<and> take 1 r1 = ''_'' \<and> b \<noteq> [] \<and>
            take 1 r2 = ''_'' \<and> c \<noteq> [] \<and> lower (take 4 r3) = ''.pdf'' \<and> at_end (drop 4 r3)
         then Some (a, b, c) else None)"

text \<open>
  A folder as the program reads it: its name, whether it is a directory, its direct children
  in the order of \<^verbatim>\<open>iterdir()\<close>, and the files that \<^verbatim>\<open>rglob("*.xlsx")\<close> finds, each with its
  name, the title of its first sheet (\<open>None\<close> when reading the workbook raises) and what
  happens when its first sheet is copied: the copy goes through, or opening the file for
  the copy raises, or an exception is raised after the new sheet was created.
\<close>

record entry =
  entry_name :: string
  entry_is_file :: bool

datatype copy_outcome = Copies | Raises_on_load | Raises_after_create

record doc =
  doc_name :: string
  first_sheet :: "string option"
  copy_outcome :: copy_outcome

record folder =
  folder_name :: string
  is_dir :: bool
  entries :: "entry list"
  xlsx_files :: "doc list"

fun collect_loop :: "entry list \<Rightarrow> string list \<Rightarrow> string list \<Rightarrow> string list \<times> string list" where
  "collect_loop [] esd_list gtd_list = (esd_list, gtd_list)"
| "collect_loop (f # fs) esd_list gtd_list =
     (if \<not> entry_is_file f then collect_loop fs esd_list gtd_list
      else
        (let name = entry_name f in
         if prefix ''GTD_'' name then
           (case GTD_PATTERN_match name of
              Some (a, b, c) \<Rightarrow> collect_loop fs esd_list (gtd_list @ [a @ ''/'' @ b @ ''/'' @ c])
            | None \<Rightarrow> collect_loop fs esd_list gtd_list)
         else if ESD_PATTERN_match name
           then collect_loop fs (esd_list @ [take (length name - 4) name]) gtd_list
           else collect_loop fs esd_list gtd_list))"

definition collect_esd_and_gtd_from_one_folder :: "folder \<Rightarrow> string list \<times> string list" where
  "collect_esd_and_gtd_from_one_folder folder =
     (if \<not> is_dir folder then ([], []) else collect_loop (entries folder) [] [])"

text \<open>Auxiliary: a directory with the given files as its direct children.\<close>

definition folder_of_files :: "string list \<Rightarrow> folder" where
  "folder_of_files names =
     \<lparr>folder_name = ''f'', is_dir = True,
      entries = map (\<lambda>n. \<lparr>entry_name = n, entry_is_file = True\<rparr>) names, xlsx_files = []\<rparr>"

lemma collect_loop_eq:
  "collect_loop fs esd_list gtd_list =
     (let names = map entry_name (filter entry_is_file fs) in
      (esd_list @ map (\<lambda>n. take (length n - 4) n)
                   (filter (\<lambda>n. \<not> prefix ''GTD_'' n \<and> ESD_PATTERN_match n) names),
       gtd_list @ concat (map (\<lambda>n. case GTD_PATTERN_match n of
                                      Some (a, b, c) \<Rightarrow> [a @ ''/'' @ b @ ''/'' @ c] | None \<Rightarrow> [])
                            (filter (prefix ''GTD_'') names))))"
  by (induction fs arbitrary: esd_list gtd_list) (auto simp: Let_def split: option.splits)

text \<open>
  The scan of a folder: a file that starts with \<open>GTD_\<close> is a declaration or nothing, every
  other file is tested against the pattern of a single token.
\<close>

lemma collect_esd_and_gtd_from_one_folder_examples:
  "collect_esd_and_gtd_from_one_folder (folder_of_files
     [''GTD_1_2_3.pdf'', ''GTD_x.pdf'', ''GTD_1_2.pdf'', ''ESD-12.PDF'', ''a b.pdf'', ''a.pdf.pdf'',
      ''gtd_10_20_30.pdf'', ''Gtd_1_2_3.Pdf'', ''GTD_7_8_9.PDF'', ''x.txt'', ''.pdf'',
      [CHR 0xE9] @ ''.pdf'', [CHR 0xD7] @ ''.pdf'', ''GTD_1_2_3.pdfx'', ''GTD_1__3.pdf''])
   = ([''ESD-12'', ''gtd_10_20_30'', ''Gtd_1_2_3'', [CHR 0xE9]], [''1/2/3'', ''7/8/9''])"
  "collect_esd_and_gtd_from_one_folder
     \<lparr>folder_name = ''f'', is_dir = True,
      entries = [\<lparr>entry_name = ''sub.pdf'', entry_is_file = False\<rparr>,
                 \<lparr>entry_name = ''e1.pdf'', entry_is_file = True\<rparr>], xlsx_files = []\<rparr>
   = ([''e1''], [])"
  "collect_esd_and_gtd_from_one_folder
     \<lparr>folder_name = ''f'', is_dir = False,
      entries = [\<lparr>entry_name = ''e1.pdf'', entry_is_file = True\<rparr>], xlsx_files = []\<rparr>
   = ([], [])"
  by code_simp+

text \<open>
  C4, at a file name that the code can meet and the claim covers: \<open>a.pdf\<close> followed by a
  newline. The anchor \<^verbatim>\<open>$\<close> lets the pattern match, and \<^verbatim>\<open>name[:-4]\<close> keeps the dot: the
  identifier is \<open>a.\<close> and not the file name without its extension.
\<close>

theorem collect_esd_trailing_newline:
  "ESD_PATTERN_match (''a.pdf'' @ [CHR 0x0A]) \<and>
   collect_esd_and_gtd_from_one_folder (folder_of_files [''a.pdf'' @ [CHR 0x0A]]) = ([''a.''], []) \<and>
   collect_esd_and_gtd_from_one_folder (folder_of_files [''a.pdf'']) = ([''a''], [])"
  by code_simp

text \<open>
  C10, at the lower-case declaration name \<open>gtd_1_2_3.pdf\<close> followed by a newline: the
  declaration pattern matches it without regard to case, the marker test does not, and the
  generic identifier is \<open>gtd_1_2_3.\<close> with the dot, not the file name without its extension.
\<close>

theorem collect_lower_case_gtd_trailing_newline:
  "GTD_PATTERN_match (''gtd_1_2_3.pdf'' @ [CHR 0x0A]) = Some (''1'', ''2'', ''3'') \<and>
   collect_esd_and_gtd_from_one_folder (folder_of_files [''gtd_1_2_3.pdf'' @ [CHR 0x0A]])
     = ([''gtd_1_2_3.''], []) \<and>
   collect_esd_and_gtd_from_one_folder (folder_of_files [''gtd_1_2_3.pdf'']) = ([''gtd_1_2_3''], [])"
  by code_simp

section \<open>The invoice list of the summary sheet\<close>



text \<open>
  A workbook is the list of its sheets; of a sheet the model keeps the title and, for a
  sheet that \<open>copy_first_sheet_to_workbook\<close> made, the document it was copied from. The
  cells are not modelled.
\<close>

record sheet =
  title :: string
  copied_from :: "doc option"

type_synonym workbook = "sheet list"


text \<open>
  \<^verbatim>\<open>_invoice_number_sort_key\<close>: the value of a title that is a string of digits once
  stripped, zero for any other title.
\<close>

definition invoice_number_sort_key :: "string \<Rightarrow> error + int" where
  "invoice_number_sort_key s =
     (let s = strip s in if isdigit s then int_py s else Inr 0)"

text \<open>
  \<^verbatim>\<open>sorted(xs, key=key)\<close>: the keys are computed first, in order, and an exception of the
  key function ends the call; then the elements are sorted by key, equal keys in their old
  order.
\<close>

fun keys_of :: "('a \<Rightarrow> error + int) \<Rightarrow> 'a list \<Rightarrow> error + (int \<times> 'a) list" where
  "keys_of key [] = Inr []"
| "keys_of key (x # xs) =
     (case key x of
        Inl e \<Rightarrow> Inl e
      | Inr k \<Rightarrow> (case keys_of key xs of Inl e \<Rightarrow> Inl e | Inr kxs \<Rightarrow> Inr ((k, x) # kxs)))"

definition sorted_by_key :: "('a \<Rightarrow> error + int) \<Rightarrow> 'a list \<Rightarrow> error + 'a list" where
  "sorted_by_key key xs =
     (case keys_of key xs of Inl e \<Rightarrow> Inl e | Inr kxs \<Rightarrow> Inr (map snd (sort_key fst kxs)))"



text \<open>Auxiliary: a workbook with the given sheet titles.\<close>

definition workbook_of_titles :: "string list \<Rightarrow> workbook" where
  "workbook_of_titles ts = map (\<lambda>t. \<lparr>title = t, copied_from = None\<rparr>) ts"

















section \<open>Copying the first sheet of an invoice into the shipment workbook\<close>

lemma digit_value_digit_char: "d < 10 \<Longrightarrow> digit_value (digit_char d) = int d"
proof -
  assume "d < 10"
  then have "d \<in> {0, 1, 2, 3, 4, 5, 6, 7, 8, 9}" by auto
  then show ?thesis
    by (elim insertE emptyE) (simp_all add: digit_value_def digit_char_def)
qed

lemma int_of_digits_snoc: "int_of_digits (s @ [c]) = 10 * int_of_digits s + digit_value c"
  by (simp add: int_of_digits_def)

lemma int_of_digits_str_nat: "int_of_digits (str_nat n) = int n"
proof (induction n rule: str_nat.induct)
  case (1 n)
  show ?case
  proof (cases "n < 10")
    case True
    then show ?thesis
      by (subst str_nat.simps) (simp add: int_of_digits_def digit_value_digit_char)
  next
    case False
    with 1 have "int_of_digits (str_nat (n div 10)) = int (n div 10)" by simp
    moreover have "digit_value (digit_char (n mod 10)) = int (n mod 10)"
      by (rule digit_value_digit_char) simp
    moreover have "10 * int (n div 10) + int (n mod 10) = int n"
    proof -
      have "10 * (n div 10) + n mod 10 = n" by simp
      then have "int (10 * (n div 10) + n mod 10) = int n" by (rule arg_cong)
      then show ?thesis by (simp only: of_nat_add of_nat_mult of_nat_numeral)
    qed
    ultimately have "int_of_digits (str_nat (n div 10) @ [digit_char (n mod 10)]) = int n"
      by (simp only: int_of_digits_snoc)
    then show ?thesis using False by (subst str_nat.simps) simp
  qed
qed

lemma str_nat_inj:
  assumes "str_nat m = str_nat n"
  shows "m = n"
proof -
  have "int m = int_of_digits (str_nat m)" by (simp only: int_of_digits_str_nat)
  also have "\<dots> = int_of_digits (str_nat n)" by (simp only: assms)
  also have "\<dots> = int n" by (simp only: int_of_digits_str_nat)
  finally show ?thesis by (simp only: of_nat_eq_iff)
qed

lemma finite_suffixes: "finite {m. base @ ''_'' @ str_nat m \<in> set existing}"
proof -
  have "inj (\<lambda>m. base @ ''_'' @ str_nat m)"
    by (rule injI) (simp add: str_nat_inj)
  then have "finite ((\<lambda>m. base @ ''_'' @ str_nat m) -` set existing)"
    by (intro finite_vimageI) simp_all
  then show ?thesis by (simp add: vimage_def)
qed

text \<open>
  The loop \<^verbatim>\<open>while f"{base}_{n}" in existing: n += 1\<close>. It ends because the titles
  \<open>base_n\<close> differ for different \<open>n\<close> and the workbook has finitely many sheets.
\<close>

function first_free_suffix :: "string \<Rightarrow> string list \<Rightarrow> nat \<Rightarrow> nat" where
  "first_free_suffix base existing n =
     (if base @ ''_'' @ str_nat n \<in> set existing then first_free_suffix base existing (n + 1) else n)"
  by pat_completeness auto
termination
proof (relation "measure (\<lambda>(base, existing, n). card {m. n \<le> m \<and> base @ ''_'' @ str_nat m \<in> set existing})")
  show "wf (measure (\<lambda>(base, existing, n). card {m. n \<le> m \<and> base @ ''_'' @ str_nat m \<in> set existing}))"
    by simp
next
  fix base existing and n :: nat
  assume taken: "base @ ''_'' @ str_nat n \<in> set existing"
  let ?S = "\<lambda>k. {m. k \<le> m \<and> base @ ''_'' @ str_nat m \<in> set existing}"
  have fin: "finite (?S n)"
    by (rule finite_subset[OF _ finite_suffixes[of base existing]]) auto
  have "n \<in> ?S n" using taken by simp
  moreover have "n \<notin> ?S (n + 1)" by simp
  moreover have "?S (n + 1) \<subseteq> ?S n" by auto
  ultimately have "?S (n + 1) \<subset> ?S n" by blast
  then have "card (?S (n + 1)) < card (?S n)" using fin by (intro psubset_card_mono)
  then show "((base, existing, n + 1), (base, existing, n))
      \<in> measure (\<lambda>(base, existing, n). card {m. n \<le> m \<and> base @ ''_'' @ str_nat m \<in> set existing})"
    by simp
qed

declare first_free_suffix.simps [simp del]

text \<open>
  The title that \<open>copy_first_sheet_to_workbook\<close> passes to \<^verbatim>\<open>create_sheet\<close>, from the
  optional \<open>new_sheet_name\<close>, the title of the first sheet of the source and the titles
  of the target workbook.
\<close>

definition new_sheet_title :: "string option \<Rightarrow> string \<Rightarrow> string list \<Rightarrow> string" where
  "new_sheet_title new_sheet_name source_title existing =
     (let name = take 31 (case new_sheet_name of
                            None \<Rightarrow> source_title
                          | Some s \<Rightarrow> if s \<noteq> [] then s else source_title)
      in if name \<in> set existing
         then take 31 (name @ ''_'' @ str_nat (first_free_suffix name existing 1))
         else name)"

text \<open>
  \<open>copy_first_sheet_to_workbook\<close>. The library call \<^verbatim>\<open>create_sheet(title=name)\<close> is not part
  of the source: it appends a sheet, with the requested title when no sheet of the workbook
  has it. What title the library gives the sheet when the requested one is taken is the
  parameter \<open>taken\<close> (from the titles of the workbook and the requested title). The result
  is the exception, if one is raised, and the target workbook as the call leaves it.
\<close>

definition copy_first_sheet_to_workbook ::
    "(string list \<Rightarrow> string \<Rightarrow> string) \<Rightarrow> doc \<Rightarrow> workbook \<Rightarrow> string option \<Rightarrow> error option \<times> workbook" where
  "copy_first_sheet_to_workbook taken source target_wb new_sheet_name =
     (case first_sheet source of
        None \<Rightarrow> (Some LoadError, target_wb)
      | Some source_title \<Rightarrow>
          if copy_outcome source = Raises_on_load then (Some LoadError, target_wb)
          else
            let existing = map title target_wb;
                name = new_sheet_title new_sheet_name source_title existing;
                ws_tgt = \<lparr>title = (if name \<in> set existing then taken existing name else name),
                          copied_from = Some source\<rparr>
            in (if copy_outcome source = Raises_after_create then Some LoadError else None,
                target_wb @ [ws_tgt]))"

section \<open>Processing one group of invoice folders\<close>

text \<open>
  The update branch of \<open>process_application\<close> reads every document of every folder that is
  a directory, but for the lock files \<^verbatim>\<open>~$...\<close>, and keeps the documents whose first sheet
  can be read and has a title that is not a sheet title of the workbook on disk.
\<close>

fun new_paths_of_folder :: "string list \<Rightarrow> doc list \<Rightarrow> (doc \<times> string) list \<Rightarrow> (doc \<times> string) list" where
  "new_paths_of_folder existing_sheet_names [] new_paths = new_paths"
| "new_paths_of_folder existing_sheet_names (path # paths) new_paths =
     (if take 2 (doc_name path) = ''~$'' then new_paths_of_folder existing_sheet_names paths new_paths
      else case first_sheet path of
             None \<Rightarrow> new_paths_of_folder existing_sheet_names paths new_paths
           | Some sheet_name \<Rightarrow>
               if sheet_name \<notin> set existing_sheet_names
               then new_paths_of_folder existing_sheet_names paths (new_paths @ [(path, sheet_name)])
               else new_paths_of_folder existing_sheet_names paths new_paths)"

fun new_paths_loop :: "string list \<Rightarrow> folder list \<Rightarrow> (doc \<times> string) list \<Rightarrow> (doc \<times> string) list" where
  "new_paths_loop existing_sheet_names [] new_paths = new_paths"
| "new_paths_loop existing_sheet_names (folder # folders) new_paths =
     (if \<not> is_dir folder then new_paths_loop existing_sheet_names folders new_paths
      else new_paths_loop existing_sheet_names folders
             (new_paths_of_folder existing_sheet_names (xlsx_files folder) new_paths))"

text \<open>The creation branch lists the documents first and reads their first sheets next.\<close>

fun all_paths_of_folder :: "doc list \<Rightarrow> doc list \<Rightarrow> doc list" where
  "all_paths_of_folder [] all_paths = all_paths"
| "all_paths_of_folder (path # paths) all_paths =
     (if take 2 (doc_name path) = ''~$'' then all_paths_of_folder paths all_paths
      else all_paths_of_folder paths (all_paths @ [path]))"

fun all_paths_loop :: "folder list \<Rightarrow> doc list \<Rightarrow> doc list" where
  "all_paths_loop [] all_paths = all_paths"
| "all_paths_loop (folder # folders) all_paths =
     (if \<not> is_dir folder then all_paths_loop folders all_paths
      else all_paths_loop folders (all_paths_of_folder (xlsx_files folder) all_paths))"

fun all_with_name_loop :: "doc list \<Rightarrow> (doc \<times> string) list \<Rightarrow> (doc \<times> string) list" where
  "all_with_name_loop [] all_with_name = all_with_name"
| "all_with_name_loop (path # paths) all_with_name =
     (case first_sheet path of
        None \<Rightarrow> all_with_name_loop paths all_with_name
      | Some sn \<Rightarrow> all_with_name_loop paths (all_with_name @ [(path, sn)]))"

text \<open>
  The loop that copies the sorted documents, in both branches: a copy that raises is
  reported and the loop goes on; the counter counts the copies that went through.
\<close>

fun copy_loop ::
    "(string list \<Rightarrow> string \<Rightarrow> string) \<Rightarrow> (doc \<times> string) list \<Rightarrow> workbook \<Rightarrow> nat \<Rightarrow> nat \<times> workbook" where
  "copy_loop taken [] wb added = (added, wb)"
| "copy_loop taken ((path, sn) # paths) wb added =
     (case copy_first_sheet_to_workbook taken path wb None of
        (None, wb') \<Rightarrow> copy_loop taken paths wb' (added + 1)
      | (Some e, wb') \<Rightarrow> copy_loop taken paths wb' added)"

text \<open>
  \<open>process_application\<close>, from the template workbook, the invoice folders of the group and
  the shipment workbook on disk, if there is one. The result is the number of sheets
  added and the workbook that is saved. The name of the file is computed by
  \<open>build_upload_table_filename\<close> without invoice numbers, which never raises; the sheet
  \<open>Total\<close> is filled by \<^verbatim>\<open>_fill_total_sheet\<close>, which writes cells only and catches every
  exception; neither is part of this model.
\<close>

definition process_application ::
    "(string list \<Rightarrow> string \<Rightarrow> string) \<Rightarrow> workbook \<Rightarrow> folder list \<Rightarrow> workbook option \<Rightarrow> error + nat \<times> workbook" where
  "process_application taken template invoice_folders out =
     (if invoice_folders = [] then Inl IndexError
      else case out of
        Some wb \<Rightarrow>
          (let existing_sheet_names = map title wb;
               new_paths = new_paths_loop existing_sheet_names invoice_folders []
           in case sorted_by_key (\<lambda>x. invoice_number_sort_key (snd x)) new_paths of
                Inl e \<Rightarrow> Inl e
              | Inr new_paths \<Rightarrow> Inr (copy_loop taken new_paths wb 0))
      | None \<Rightarrow>
          (let all_paths = all_paths_loop invoice_folders [];
               all_with_name = all_with_name_loop all_paths []
           in case sorted_by_key (\<lambda>x. invoice_number_sort_key (snd x)) all_with_name of
                Inl e \<Rightarrow> Inl e
              | Inr all_with_name \<Rightarrow> Inr (copy_loop taken all_with_name template 0)))"

text \<open>Auxiliary: an invoice document that copies, and a folder holding given documents.\<close>

definition invoice :: "string \<Rightarrow> string \<Rightarrow> doc" where
  "invoice name t = \<lparr>doc_name = name, first_sheet = Some t, copy_outcome = Copies\<rparr>"

definition folder_of_docs :: "doc list \<Rightarrow> folder" where
  "folder_of_docs ds = \<lparr>folder_name = ''f'', is_dir = True, entries = [], xlsx_files = ds\<rparr>"





section \<open>Facts about the scans and the copies of a run\<close>


















lemma process_application_examples:
  "process_application taken (workbook_of_titles [''Total'']) [] None = Inl IndexError"
  "process_application taken (workbook_of_titles [''Total'']) [] (Some (workbook_of_titles [''Total''])) = Inl IndexError"
  "process_application taken (workbook_of_titles [''Total''])
     [folder_of_docs [invoice ''a.xlsx'' ''1'', invoice ''b.xlsx'' [CHR 0xB2]]] None = Inl ValueError"
  "process_application taken (workbook_of_titles [''Total''])
     [folder_of_docs [invoice ''a.xlsx'' ''1'', invoice ''b.xlsx'' [CHR 0xB2]]]
     (Some (workbook_of_titles [''Total'', ''1''])) = Inl ValueError"
  "process_application taken (workbook_of_titles [''Total''])
     [folder_of_docs [invoice ''a.xlsx'' ''1'', invoice ''b.xlsx'' [CHR 0xB2]]]
     (Some (workbook_of_titles [''Total'', [CHR 0xB2]]))
   = Inr (1, workbook_of_titles [''Total'', [CHR 0xB2]]
             @ [\<lparr>title = ''1'', copied_from = Some (invoice ''a.xlsx'' ''1'')\<rparr>])"
  by code_simp+

section \<open>The titles of copied sheets\<close>

text \<open>
  C3. The title that \<open>copy_first_sheet_to_workbook\<close> requests for the new sheet is the
  desired or source title cut to 31 characters, followed by the first free suffix \<open>_1\<close>,
  \<open>_2\<close>, ... when that title is taken: among the titles \<open>Total\<close>, \<open>5\<close>, \<open>5_1\<close> and \<open>5_3\<close> the
  source title \<open>5\<close> becomes \<open>5_2\<close>. The suffixed title is cut to 31 characters again, after
  the search for a free suffix: for a title of 31 characters that is taken the cut removes
  the suffix, and the title requested is the one that is taken; for a taken title of 30
  characters the cut leaves the underscore only, and the third copy requests the title of
  the second. The call then appends a sheet all the same.
\<close>

theorem new_sheet_title_collision:
  "new_sheet_title None ''5'' [''Total'', ''5'', ''5_1'', ''5_3''] = ''5_2'' \<and>
   new_sheet_title None (replicate 40 (CHR ''a'')) [''Total''] = replicate 31 (CHR ''a'') \<and>
   new_sheet_title None (replicate 31 (CHR ''a'')) [''Total'', replicate 31 (CHR ''a'')]
     = replicate 31 (CHR ''a'') \<and>
   new_sheet_title (Some (replicate 31 (CHR ''a''))) ''5'' [''Total'', replicate 31 (CHR ''a'')]
     = replicate 31 (CHR ''a'') \<and>
   new_sheet_title None (replicate 30 (CHR ''a'')) [replicate 30 (CHR ''a'')]
     = replicate 30 (CHR ''a'') @ ''_'' \<and>
   new_sheet_title None (replicate 30 (CHR ''a'')) [replicate 30 (CHR ''a''), replicate 30 (CHR ''a'') @ ''_'']
     = replicate 30 (CHR ''a'') @ ''_'' \<and>
   copy_first_sheet_to_workbook taken (invoice ''a.xlsx'' (replicate 31 (CHR ''a'')))
       (workbook_of_titles [''Total'', replicate 31 (CHR ''a'')]) None
     = (None, workbook_of_titles [''Total'', replicate 31 (CHR ''a'')]
              @ [\<lparr>title = taken [''Total'', replicate 31 (CHR ''a'')] (replicate 31 (CHR ''a'')),
                   copied_from = Some (invoice ''a.xlsx'' (replicate 31 (CHR ''a'')))\<rparr>])"
  by code_simp

section \<open>A second run on unchanged folders\<close>

text \<open>
  C1. One folder holds one invoice whose first sheet has a title of 32 characters. The
  first run creates the shipment workbook from a template with the sheet \<open>Total\<close>: it adds
  one sheet, whose title is the first 31 characters. The second run, on the same folder and
  the workbook of the first run, compares the title of 32 characters with the sheet titles,
  does not find it, and copies the invoice again: it returns one added sheet and the
  workbook has a sheet more, whatever title the library gives it.
\<close>

theorem process_application_second_run:
  "process_application taken (workbook_of_titles [''Total''])
       [folder_of_docs [invoice ''a.xlsx'' (replicate 32 (CHR ''a''))]] None
     = Inr (1, workbook_of_titles [''Total'']
               @ [\<lparr>title = replicate 31 (CHR ''a''),
                    copied_from = Some (invoice ''a.xlsx'' (replicate 32 (CHR ''a'')))\<rparr>]) \<and>
   process_application taken (workbook_of_titles [''Total''])
       [folder_of_docs [invoice ''a.xlsx'' (replicate 32 (CHR ''a''))]]
       (Some (workbook_of_titles [''Total'']
               @ [\<lparr>title = replicate 31 (CHR ''a''),
                    copied_from = Some (invoice ''a.xlsx'' (replicate 32 (CHR ''a'')))\<rparr>]))
     = Inr (1, workbook_of_titles [''Total'']
               @ [\<lparr>title = replicate 31 (CHR ''a''),
                    copied_from = Some (invoice ''a.xlsx'' (replicate 32 (CHR ''a'')))\<rparr>,
                  \<lparr>title = taken [''Total'', replicate 31 (CHR ''a'')] (replicate 31 (CHR ''a'')),
                    copied_from = Some (invoice ''a.xlsx'' (replicate 32 (CHR ''a'')))\<rparr>])"
  by code_simp

section \<open>The order in which invoices are copied\<close>




section \<open>Folder names of three segments\<close>

text \<open>
  C9. A folder name of exactly three comma-separated segments has the whole folder name
  as its group key; the key is not empty, and two different names of three segments have
  different keys.
\<close>

theorem get_group_key_three_segments:
  "length (parse_name_by_commas name) = 3 \<longrightarrow>
     get_group_key name = name \<and> get_group_key name \<noteq> '''' \<and>
     (\<forall>other. length (parse_name_by_commas other) = 3 \<and> other \<noteq> name
        \<longrightarrow> get_group_key other \<noteq> get_group_key name)"
proof
  assume three: "length (parse_name_by_commas name) = 3"
  have key: "get_group_key n = n" if "length (parse_name_by_commas n) = 3" for n
    using that by (simp add: get_group_key_def Let_def)
  have "name \<noteq> []"
    using three by (auto simp: length_parse_name_by_commas)
  with key three show "get_group_key name = name \<and> get_group_key name \<noteq> '''' \<and>
     (\<forall>other. length (parse_name_by_commas other) = 3 \<and> other \<noteq> name
        \<longrightarrow> get_group_key other \<noteq> get_group_key name)"
    by simp
qed

theorem get_group_key_three_segments_witness:
  "length (parse_name_by_commas ''A, B, C'') = 3 \<and> get_group_key ''A, B, C'' = ''A, B, C'' \<and>
   get_group_key ''A, B, D'' \<noteq> get_group_key ''A, B, C''"
proof -
  have a: "length (parse_name_by_commas ''A, B, C'') = 3"
    by (simp add: length_parse_name_by_commas)
  have b: "length (parse_name_by_commas ''A, B, D'') = 3"
    by (simp add: length_parse_name_by_commas)
  have c: "''A, B, D'' \<noteq> ''A, B, C''"
    by simp
  from get_group_key_three_segments [of "''A, B, C''"] a
  have key: "get_group_key ''A, B, C'' = ''A, B, C''"
    and other: "\<forall>other. length (parse_name_by_commas other) = 3 \<and> other \<noteq> ''A, B, C''
        \<longrightarrow> get_group_key other \<noteq> get_group_key ''A, B, C''"
    by blast+
  from other b c have "get_group_key ''A, B, D'' \<noteq> get_group_key ''A, B, C''"
    by blast
  with a key show ?thesis
    by blast
qed

end
